theory Spec2Isabelle
  imports Main
begin

section \<open>GraphCore: a CSR graph engine with a binary cache\<close>

text \<open>
  A shallow embedding of \<^verbatim>\<open>GraphCore.cpp\<close> / \<^verbatim>\<open>GraphCore.hpp\<close>.
  The C++ type \<^verbatim>\<open>int\<close> is a 32-bit two's complement integer. It is modelled
  by \<open>int\<close>; the places where the program can leave the 32-bit range (signed overflow is
  undefined behaviour) return the error \<open>SignedOverflow\<close>. An access to a
  \<^verbatim>\<open>std::vector\<close> outside its bounds (undefined behaviour as well) returns
  \<open>OutOfBounds\<close>, and a vector that is asked for a negative number of elements (the
  conversion to \<^verbatim>\<open>size_t\<close> makes it larger than \<^verbatim>\<open>max_size()\<close>, the library
  throws) returns \<open>LengthError\<close>. Memory is taken to be sufficient for every other
  allocation. The additions that carry no check stay below a value that has one: a count
  of pairs (\<^verbatim>\<open>counts[u]++\<close>, the prefix sums, \<^verbatim>\<open>current[u]++\<close>) is at most
  \<^verbatim>\<open>num_aristas\<close>, and a level \<^verbatim>\<open>vis[u] + 1\<close> is at most \<^verbatim>\<open>depth\<close>.
\<close>

datatype error = OutOfBounds | LengthError | SignedOverflow

definition INT_MAX :: int where
  "INT_MAX = 2147483647"

definition INT_MIN :: int where
  "INT_MIN = - 2147483648"

definition int32 :: "int \<Rightarrow> bool" where
  "int32 x \<longleftrightarrow> INT_MIN \<le> x \<and> x \<le> INT_MAX"

text \<open>Sequencing of steps that may fail: the first error ends the computation.\<close>

definition bindE :: "error + 'a \<Rightarrow> ('a \<Rightarrow> error + 'b) \<Rightarrow> error + 'b" where
  "bindE m f = (case m of Inl e \<Rightarrow> Inl e | Inr x \<Rightarrow> f x)"

text \<open>\<^verbatim>\<open>x + 1\<close> and \<^verbatim>\<open>x++\<close> on an \<^verbatim>\<open>int\<close>.\<close>

definition inc :: "int \<Rightarrow> error + int" where
  "inc x = (if x + 1 > INT_MAX then Inl SignedOverflow else Inr (x + 1))"

subsection \<open>std::vector<int>\<close>

text \<open>\<^verbatim>\<open>xs[i]\<close> as a read.\<close>

definition at :: "int list \<Rightarrow> int \<Rightarrow> error + int" where
  "at xs i = (if 0 \<le> i \<and> i < int (length xs) then Inr (xs ! nat i) else Inl OutOfBounds)"

text \<open>\<^verbatim>\<open>xs[i] = v\<close>.\<close>

definition put :: "int list \<Rightarrow> int \<Rightarrow> int \<Rightarrow> error + int list" where
  "put xs i v = (if 0 \<le> i \<and> i < int (length xs) then Inr (xs[nat i := v]) else Inl OutOfBounds)"

text \<open>\<^verbatim>\<open>std::vector<int> xs(n, v)\<close> and \<^verbatim>\<open>xs.assign(n, v)\<close>, with \<open>n\<close> an \<^verbatim>\<open>int\<close>.\<close>

definition vec_fill :: "int \<Rightarrow> int \<Rightarrow> error + int list" where
  "vec_fill n v = (if n < 0 then Inl LengthError else Inr (replicate (nat n) v))"

text \<open>\<^verbatim>\<open>xs.resize(n)\<close>: the first elements are kept, new elements are zero.\<close>

definition vec_resize :: "int list \<Rightarrow> int \<Rightarrow> error + int list" where
  "vec_resize xs n =
     (if n < 0 then Inl LengthError
      else Inr (take (nat n) xs @ replicate (nat n - length xs) 0))"

subsection \<open>The graph object and the file system\<close>

record GrafoDisperso =
  row_ptr :: "int list"
  col_indices :: "int list"
  num_nodos :: int
  num_aristas :: int

text \<open>The constructor \<^verbatim>\<open>GrafoDisperso()\<close>.\<close>

definition GrafoDisperso_new :: GrafoDisperso where
  "GrafoDisperso_new = \<lparr>row_ptr = [], col_indices = [], num_nodos = 0, num_aristas = 0\<rparr>"

text \<open>
  A file is its sequence of bytes (\<open>char\<close> is a byte). The file system maps a path to
  the content of the file there, and says which paths can be opened for writing.
\<close>

record filesystem =
  contents :: "string \<Rightarrow> string option"
  writable :: "string \<Rightarrow> bool"

definition fileExists :: "filesystem \<Rightarrow> string \<Rightarrow> bool" where
  "fileExists fs name \<longleftrightarrow> contents fs name \<noteq> None"

text \<open>The lines the loader prints; they tell the caller which way the load went.\<close>

datatype salida = CacheCargada | ProcesandoTexto | NoSePudoAbrir

subsection \<open>The edge-list reader (formatted input of \<^verbatim>\<open>std::ifstream\<close>)\<close>

text \<open>White space of the C locale: space, and the characters 9 to 13.\<close>

definition isspace :: "char \<Rightarrow> bool" where
  "isspace c \<longleftrightarrow> (of_char c :: nat) = 32 \<or> (9 \<le> (of_char c :: nat) \<and> (of_char c :: nat) \<le> 13)"

definition isdigit :: "char \<Rightarrow> bool" where
  "isdigit c \<longleftrightarrow> 48 \<le> (of_char c :: nat) \<and> (of_char c :: nat) \<le> 57"

text \<open>
  \<^verbatim>\<open>while (file >> std::ws && file.peek() == '#') std::getline(file, line);\<close>
  The result is what is left of the file at the data-start position. When the end of
  the file is reached here the stream is in a failed state, \<^verbatim>\<open>tellg\<close> gives -1 and
  every later pass reads nothing, which is what reading the empty rest gives too.
\<close>

function skip_comments :: "string \<Rightarrow> string" where
  "skip_comments s =
     (case dropWhile isspace s of
        [] \<Rightarrow> []
      | c # cs \<Rightarrow>
          if c = CHR ''#'' then skip_comments (drop 1 (dropWhile (\<lambda>d. d \<noteq> CHR 0x0A) cs))
          else c # cs)"
  by pat_completeness auto
termination
proof (relation "measure length")
  show "wf (measure length)" by simp
next
  fix s :: string and c cs
  assume a: "dropWhile isspace s = c # cs"
  have "length (drop 1 (dropWhile (\<lambda>d. d \<noteq> CHR 0x0A) cs)) \<le> length cs"
    using length_dropWhile_le [of "\<lambda>d. d \<noteq> CHR 0x0A" cs] by simp
  moreover have "length (c # cs) \<le> length s"
    using length_dropWhile_le [of isspace s] a by simp
  ultimately show "(drop 1 (dropWhile (\<lambda>d. d \<noteq> CHR 0x0A) cs), s) \<in> measure length"
    by simp
qed

declare skip_comments.simps [simp del]

text \<open>The value of a run of decimal digits.\<close>

definition digits_val :: "string \<Rightarrow> int" where
  "digits_val ds = foldl (\<lambda>acc c. 10 * acc + (of_char c - 48)) 0 ds"

text \<open>
  \<^verbatim>\<open>file >> x\<close> for an \<^verbatim>\<open>int x\<close>: white space is skipped, then an optional sign and
  a run of decimal digits are read. The extraction fails (\<open>None\<close>) when there is no
  digit or the value does not fit an \<^verbatim>\<open>int\<close>; the loops of the builder stop at the
  first failure.
\<close>

definition read_int :: "string \<Rightarrow> (int \<times> string) option" where
  "read_int s =
     (let s1 = dropWhile isspace s;
          neg = (case s1 of [] \<Rightarrow> False | c # cs \<Rightarrow> c = CHR ''-'');
          s2 = (case s1 of [] \<Rightarrow> [] | c # cs \<Rightarrow> if c = CHR ''-'' \<or> c = CHR ''+'' then cs else s1);
          ds = takeWhile isdigit s2;
          x = (if neg then - digits_val ds else digits_val ds)
      in if ds \<noteq> [] \<and> int32 x then Some (x, dropWhile isdigit s2) else None)"

lemma read_int_shorter: "read_int s = Some (x, r) \<Longrightarrow> length r < length s"
proof -
  assume a: "read_int s = Some (x, r)"
  define s1 where "s1 = dropWhile isspace s"
  define s2 where "s2 = (case s1 of [] \<Rightarrow> [] | c # cs \<Rightarrow> if c = CHR ''-'' \<or> c = CHR ''+'' then cs else s1)"
  from a have ne: "takeWhile isdigit s2 \<noteq> []" and r: "r = dropWhile isdigit s2"
    unfolding s2_def s1_def read_int_def Let_def by (auto split: if_splits)
  have "length (takeWhile isdigit s2) + length (dropWhile isdigit s2) = length s2"
    by (metis length_append takeWhile_dropWhile_id)
  with ne have "length r < length s2" by (cases "takeWhile isdigit s2") (auto simp: r)
  moreover have "length s2 \<le> length s1" by (auto simp: s2_def split: list.splits)
  moreover have "length s1 \<le> length s" by (simp add: s1_def length_dropWhile_le)
  ultimately show ?thesis by simp
qed

text \<open>
  \<^verbatim>\<open>while (file >> u >> v) ...\<close>: the pairs one pass of the builder sees. The three
  passes start at the same position of the same file, so they see the same pairs.
\<close>

function read_pairs :: "string \<Rightarrow> (int \<times> int) list" where
  "read_pairs s =
     (case read_int s of
        None \<Rightarrow> []
      | Some (u, s1) \<Rightarrow>
          (case read_int s1 of
             None \<Rightarrow> []
           | Some (v, s2) \<Rightarrow> (u, v) # read_pairs s2))"
  by pat_completeness auto
termination
proof (relation "measure length")
  show "wf (measure length)" by simp
next
  fix s x2 u s1 y2 v s2
  assume "read_int s = Some x2" "(u, s1) = x2" "read_int s1 = Some y2" "(v, s2) = y2"
  then have "length s1 < length s" "length s2 < length s1"
    using read_int_shorter by metis+
  then show "(s2, s) \<in> measure length" by simp
qed

declare read_pairs.simps [simp del]

subsection \<open>The CSR builder (text path of \<^verbatim>\<open>cargarDatos\<close>)\<close>

lemma bindE_cong [fundef_cong]:
  "m = m' \<Longrightarrow> (\<And>x. m' = Inr x \<Longrightarrow> f x = f' x) \<Longrightarrow> bindE m f = bindE m' f'"
  by (cases m') (simp_all add: bindE_def)

text \<open>
  Pass 1: \<^verbatim>\<open>if (u > max_id) max_id = u; if (v > max_id) max_id = v; num_aristas++;\<close>
  The counter is the member \<^verbatim>\<open>num_aristas\<close>, which the loader does not reset.
\<close>

fun pasada1 :: "(int \<times> int) list \<Rightarrow> int \<Rightarrow> int \<Rightarrow> error + (int \<times> int)" where
  "pasada1 [] max_id na = Inr (max_id, na)"
| "pasada1 ((u, v) # es) max_id na =
     (let m1 = (if u > max_id then u else max_id);
          m2 = (if v > m1 then v else m1)
      in bindE (inc na) (\<lambda>na'. pasada1 es m2 na'))"

text \<open>Pass 2: \<^verbatim>\<open>counts[u]++\<close>.\<close>

fun pasada2 :: "(int \<times> int) list \<Rightarrow> int list \<Rightarrow> error + int list" where
  "pasada2 [] counts = Inr counts"
| "pasada2 ((u, v) # es) counts =
     bindE (at counts u) (\<lambda>c.
     bindE (put counts u (c + 1)) (\<lambda>counts'. pasada2 es counts'))"

text \<open>\<^verbatim>\<open>for (int i = 0; i < num_nodos; ++i) row_ptr[i+1] = row_ptr[i] + counts[i];\<close>\<close>

function suma_prefija :: "int \<Rightarrow> int \<Rightarrow> int list \<Rightarrow> int list \<Rightarrow> error + int list" where
  "suma_prefija i n counts rp =
     (if i < n then
        bindE (at rp i) (\<lambda>a.
        bindE (at counts i) (\<lambda>c.
        bindE (put rp (i + 1) (a + c)) (\<lambda>rp'. suma_prefija (i + 1) n counts rp')))
      else Inr rp)"
  by pat_completeness auto
termination
  by (relation "measure (\<lambda>(i, n, counts, rp). nat (n - i))") auto

declare suma_prefija.simps [simp del]

text \<open>Pass 3: \<^verbatim>\<open>col_indices[current[u]] = v; current[u]++;\<close>\<close>

fun pasada3 :: "(int \<times> int) list \<Rightarrow> int list \<Rightarrow> int list \<Rightarrow> error + int list" where
  "pasada3 [] current col = Inr col"
| "pasada3 ((u, v) # es) current col =
     bindE (at current u) (\<lambda>p.
     bindE (put col p v) (\<lambda>col'.
     bindE (put current u (p + 1)) (\<lambda>current'. pasada3 es current' col')))"

text \<open>
  Lines 48 to 85 of \<^verbatim>\<open>cargarDatos\<close>: the CSR built from the content of the text
  file, on the object as it is when the text path is entered.
\<close>

definition construirCSR :: "GrafoDisperso \<Rightarrow> string \<Rightarrow> error + GrafoDisperso" where
  "construirCSR g content =
     (let edges = read_pairs (skip_comments content) in
      bindE (pasada1 edges 0 (num_aristas g)) (\<lambda>(max_id, na).
      bindE (inc max_id) (\<lambda>nn.
      bindE (inc nn) (\<lambda>nn1.
      bindE (vec_fill nn1 0) (\<lambda>rp0.
      bindE (vec_resize (col_indices g) na) (\<lambda>col0.
      bindE (vec_fill nn 0) (\<lambda>counts0.
      bindE (pasada2 edges counts0) (\<lambda>counts.
      bindE (put rp0 0 0) (\<lambda>rp1.
      bindE (suma_prefija 0 nn counts rp1) (\<lambda>rp.
      bindE (pasada3 edges rp col0) (\<lambda>col.
      Inr \<lparr>row_ptr = rp, col_indices = col, num_nodos = nn, num_aristas = na\<rparr>)))))))))))"

subsection \<open>The binary cache codec\<close>

text \<open>
  The four bytes of an \<^verbatim>\<open>int\<close> in memory, least significant first, and the
  \<^verbatim>\<open>int\<close> that four bytes are.
\<close>

definition encode32 :: "int \<Rightarrow> string" where
  "encode32 x =
     [char_of x, char_of (x div 256), char_of (x div 65536), char_of (x div 16777216)]"

definition decode32 :: "string \<Rightarrow> int" where
  "decode32 bs =
     (let w = foldr (\<lambda>b acc. of_char b + 256 * acc) bs 0
      in if w \<ge> 2147483648 then w - 4294967296 else w)"

definition encode_vec :: "int list \<Rightarrow> string" where
  "encode_vec xs = concat (map encode32 xs)"

fun decode_vec :: "string \<Rightarrow> int list" where
  "decode_vec (a # b # c # d # bs) = decode32 [a, b, c, d] # decode_vec bs"
| "decode_vec bs = []"

text \<open>
  \<^verbatim>\<open>in.read(buf, n)\<close> on a stream given by the bytes not yet read and its
  \<^verbatim>\<open>good()\<close> state. A stream that is not good reads nothing. A short read stores the
  bytes there are in front of the old content of the buffer and leaves the stream failed.
\<close>

definition stream_read :: "string \<Rightarrow> string \<times> bool \<Rightarrow> string \<times> (string \<times> bool)" where
  "stream_read buf st =
     (case st of (bytes, good) \<Rightarrow>
        if \<not> good then (buf, (bytes, False))
        else if length buf \<le> length bytes
          then (take (length buf) bytes, (drop (length buf) bytes, True))
        else (bytes @ drop (length bytes) buf, ([], False)))"

text \<open>\<^verbatim>\<open>guardarCache\<close>: the result is the returned flag and the file system after the call.\<close>

definition guardarCache :: "GrafoDisperso \<Rightarrow> filesystem \<Rightarrow> string \<Rightarrow> bool \<times> filesystem" where
  "guardarCache g fs cacheFile =
     (if \<not> writable fs cacheFile then (False, fs)
      else (True, fs\<lparr>contents := (contents fs)(cacheFile \<mapsto>
              encode32 (num_nodos g) @ encode32 (num_aristas g) @
              encode_vec (row_ptr g) @ encode_vec (col_indices g))\<rparr>))"

text \<open>\<^verbatim>\<open>cargarDesdeCache\<close>: the returned flag and the object after the call.\<close>

definition cargarDesdeCache ::
  "GrafoDisperso \<Rightarrow> filesystem \<Rightarrow> string \<Rightarrow> error + (bool \<times> GrafoDisperso)" where
  "cargarDesdeCache g fs cacheFile =
     (case contents fs cacheFile of
        None \<Rightarrow> Inr (False, g)
      | Some bytes \<Rightarrow>
          (let (b1, st1) = stream_read (encode32 (num_nodos g)) (bytes, True);
               nn = decode32 b1;
               (b2, st2) = stream_read (encode32 (num_aristas g)) st1;
               na = decode32 b2
           in bindE (inc nn) (\<lambda>nn1.
              bindE (vec_resize (row_ptr g) nn1) (\<lambda>rp0.
              bindE (vec_resize (col_indices g) na) (\<lambda>col0.
                let (b3, st3) = stream_read (encode_vec rp0) st2;
                    (b4, st4) = stream_read (encode_vec col0) st3
                in Inr (snd st4,
                     \<lparr>row_ptr = decode_vec b3, col_indices = decode_vec b4,
                      num_nodos = nn, num_aristas = na\<rparr>))))))"

text \<open>
  \<^verbatim>\<open>cargarDatos\<close>: what was printed, the object and the file system after the call.
\<close>

definition cargarDatos ::
  "GrafoDisperso \<Rightarrow> filesystem \<Rightarrow> string \<Rightarrow> error + (salida list \<times> GrafoDisperso \<times> filesystem)" where
  "cargarDatos g fs filename =
     (let cacheFile = filename @ ''.bin'' in
      bindE (if fileExists fs cacheFile then cargarDesdeCache g fs cacheFile
             else Inr (False, g)) (\<lambda>(loaded, g1).
        if loaded then Inr ([CacheCargada], g1, fs)
        else
          (case contents fs filename of
             None \<Rightarrow> Inr ([ProcesandoTexto, NoSePudoAbrir], g1, fs)
           | Some content \<Rightarrow>
               bindE (construirCSR g1 content) (\<lambda>g2.
                 Inr ([ProcesandoTexto], g2, snd (guardarCache g2 fs cacheFile))))))"

subsection \<open>The query engine\<close>

text \<open>The loop of \<^verbatim>\<open>obtenerNodoCritico\<close>, with its locals \<open>i\<close>, \<open>max_d\<close> and \<open>id\<close>.\<close>

function nodo_critico_loop :: "GrafoDisperso \<Rightarrow> int \<Rightarrow> int \<Rightarrow> int \<Rightarrow> error + int" where
  "nodo_critico_loop g i max_d ident =
     (if i < num_nodos g then
        bindE (at (row_ptr g) (i + 1)) (\<lambda>b.
        bindE (at (row_ptr g) i) (\<lambda>a.
          if \<not> int32 (b - a) then Inl SignedOverflow
          else if b - a > max_d then nodo_critico_loop g (i + 1) (b - a) i
          else nodo_critico_loop g (i + 1) max_d ident))
      else Inr ident)"
  by pat_completeness auto
termination
  by (relation "measure (\<lambda>(g, i, max_d, ident). nat (num_nodos g - i))") auto

declare nodo_critico_loop.simps [simp del]

text \<open>The queries return their result and the object after the call.\<close>

definition obtenerNodoCritico :: "GrafoDisperso \<Rightarrow> error + (int \<times> GrafoDisperso)" where
  "obtenerNodoCritico g = bindE (nodo_critico_loop g 0 (- 1) (- 1)) (\<lambda>r. Inr (r, g))"

definition getNumNodos :: "GrafoDisperso \<Rightarrow> int \<times> GrafoDisperso" where
  "getNumNodos g = (num_nodos g, g)"

definition getNumAristas :: "GrafoDisperso \<Rightarrow> int \<times> GrafoDisperso" where
  "getNumAristas g = (num_aristas g, g)"

text \<open>
  The inner loop of \<^verbatim>\<open>bfs\<close>,
  \<^verbatim>\<open>for (int i = row_ptr[u]; i < row_ptr[u+1]; ++i)\<close>, on the locals \<open>vis\<close>, \<open>q\<close>
  and \<open>res\<close>.
\<close>

function bfs_for ::
  "GrafoDisperso \<Rightarrow> int \<Rightarrow> int \<Rightarrow> int list \<Rightarrow> int list \<Rightarrow> (int \<times> int) list \<Rightarrow>
     error + (int list \<times> int list \<times> (int \<times> int) list)" where
  "bfs_for g u i vis q res =
     bindE (at (row_ptr g) (u + 1)) (\<lambda>hi.
       if i < hi then
         bindE (at (col_indices g) i) (\<lambda>v.
         bindE (at vis v) (\<lambda>lv.
           if lv = - 1 then
             bindE (at vis u) (\<lambda>lu.
             bindE (put vis v (lu + 1)) (\<lambda>vis'.
               bfs_for g u (i + 1) vis' (q @ [v]) (res @ [(u, v)])))
           else bfs_for g u (i + 1) vis q (res @ [(u, v)])))
       else Inr (vis, q, res))"
  by pat_completeness auto
termination
  by (relation "measure (\<lambda>(g, u, i, vis, q, res). nat (row_ptr g ! nat (u + 1) - i))")
     (auto simp: at_def split: if_splits)

declare bfs_for.simps [simp del]

text \<open>
  The loop \<^verbatim>\<open>while (!q.empty())\<close>. The value \<open>None\<close> is a loop that does not end.
\<close>

partial_function (option) bfs_while ::
  "GrafoDisperso \<Rightarrow> int \<Rightarrow> int list \<Rightarrow> int list \<Rightarrow> (int \<times> int) list \<Rightarrow>
     (error + (int \<times> int) list) option" where
  "bfs_while g depth vis q res =
     (case q of
        [] \<Rightarrow> Some (Inr res)
      | u # q' \<Rightarrow>
          (case at vis u of
             Inl e \<Rightarrow> Some (Inl e)
           | Inr lu \<Rightarrow>
               if lu \<ge> depth then bfs_while g depth vis q' res
               else
                 (case at (row_ptr g) u of
                    Inl e \<Rightarrow> Some (Inl e)
                  | Inr lo \<Rightarrow>
                      (case bfs_for g u lo vis q' res of
                         Inl e \<Rightarrow> Some (Inl e)
                       | Inr (vis', q'', res') \<Rightarrow> bfs_while g depth vis' q'' res'))))"

declare bfs_while.simps [code]

definition bfs ::
  "GrafoDisperso \<Rightarrow> int \<Rightarrow> int \<Rightarrow> (error + ((int \<times> int) list \<times> GrafoDisperso)) option" where
  "bfs g startNode depth =
     (if startNode \<ge> num_nodos g then Some (Inr ([], g))
      else
        (case vec_fill (num_nodos g) (- 1) of
           Inl e \<Rightarrow> Some (Inl e)
         | Inr vis0 \<Rightarrow>
             (case put vis0 startNode 0 of
                Inl e \<Rightarrow> Some (Inl e)
              | Inr vis1 \<Rightarrow>
                  (case bfs_while g depth vis1 [startNode] [] of
                     None \<Rightarrow> None
                   | Some (Inl e) \<Rightarrow> Some (Inl e)
                   | Some (Inr res) \<Rightarrow> Some (Inr (res, g))))))"

subsection \<open>The invariants of the data model, and loads of concrete files\<close>

text \<open>The out-degree of a vertex: \<^verbatim>\<open>row_ptr[u+1] - row_ptr[u]\<close>.\<close>

definition grado :: "GrafoDisperso \<Rightarrow> int \<Rightarrow> int" where
  "grado g u = row_ptr g ! nat (u + 1) - row_ptr g ! nat u"

text \<open>
  The invariants on \<open>row_ptr\<close>: its length is \<open>num_nodos + 1\<close>, it is non-decreasing,
  it starts at 0 and ends at \<open>num_aristas\<close> (an \<^verbatim>\<open>int\<close>).
\<close>

definition csr_rows :: "GrafoDisperso \<Rightarrow> bool" where
  "csr_rows g \<longleftrightarrow>
     0 \<le> num_nodos g \<and> length (row_ptr g) = nat (num_nodos g + 1) \<and>
     sorted (row_ptr g) \<and> row_ptr g ! 0 = 0 \<and>
     row_ptr g ! nat (num_nodos g) = num_aristas g \<and> num_aristas g \<le> INT_MAX"

text \<open>Every element of \<open>col_indices\<close> is a vertex.\<close>

definition cols_in_range :: "GrafoDisperso \<Rightarrow> bool" where
  "cols_in_range g \<longleftrightarrow> (\<forall>v \<in> set (col_indices g). 0 \<le> v \<and> v < num_nodos g)"

definition csr_invariants :: "GrafoDisperso \<Rightarrow> bool" where
  "csr_invariants g \<longleftrightarrow>
     csr_rows g \<and> length (col_indices g) = nat (num_aristas g) \<and> cols_in_range g"

text \<open>
  A file system that holds the text file \<^verbatim>\<open>grafo.txt\<close> and no cache file, and one
  that holds the text file and the cache file \<^verbatim>\<open>grafo.txt.bin\<close>.
\<close>

definition fs_texto :: "string \<Rightarrow> filesystem" where
  "fs_texto txt = \<lparr>contents = Map.empty(''grafo.txt'' \<mapsto> txt), writable = (\<lambda>p. True)\<rparr>"

definition fs_texto_cache :: "string \<Rightarrow> string \<Rightarrow> filesystem" where
  "fs_texto_cache txt bin =
     \<lparr>contents = Map.empty(''grafo.txt'' \<mapsto> txt, ''grafo.txt.bin'' \<mapsto> bin),
      writable = (\<lambda>p. True)\<rparr>"

text \<open>
  \<^verbatim>\<open>GrafoDisperso g; g.cargarDatos("grafo.txt");\<close> what was printed and the object
  after the load.
\<close>

definition cargar :: "filesystem \<Rightarrow> error + (salida list \<times> GrafoDisperso)" where
  "cargar fs =
     (case cargarDatos GrafoDisperso_new fs ''grafo.txt'' of
        Inl e \<Rightarrow> Inl e
      | Inr (out, g, fs') \<Rightarrow> Inr (out, g))"

text \<open>The same load, followed by \<^verbatim>\<open>g.bfs(startNode, depth)\<close>: the sequence returned.\<close>

definition bfs_tras_cargar ::
  "filesystem \<Rightarrow> int \<Rightarrow> int \<Rightarrow> (error + (int \<times> int) list) option" where
  "bfs_tras_cargar fs startNode depth =
     (case cargar fs of
        Inl e \<Rightarrow> Some (Inl e)
      | Inr (out, g) \<Rightarrow>
          (case bfs g startNode depth of
             None \<Rightarrow> None
           | Some (Inl e) \<Rightarrow> Some (Inl e)
           | Some (Inr (res, g')) \<Rightarrow> Some (Inr res)))"

text \<open>
  The targets of the pairs of an edge stream whose source is \<open>u\<close>, in the order of the
  stream.
\<close>

definition fila :: "int \<Rightarrow> (int \<times> int) list \<Rightarrow> int list" where
  "fila u es = map snd (filter (\<lambda>e. fst e = u) es)"

text \<open>
  The out-neighbours of \<open>u\<close> in the CSR:
  \<^verbatim>\<open>col_indices[row_ptr[u] .. row_ptr[u+1])\<close>.
\<close>

definition vecinos :: "GrafoDisperso \<Rightarrow> int \<Rightarrow> int list" where
  "vecinos g u =
     map (\<lambda>i. col_indices g ! i) [nat (row_ptr g ! nat u) ..< nat (row_ptr g ! nat (u + 1))]"

text \<open>Every \<^verbatim>\<open>int\<close> of the object is in the range of a 32-bit integer.\<close>

definition ints32 :: "GrafoDisperso \<Rightarrow> bool" where
  "ints32 g \<longleftrightarrow>
     int32 (num_nodos g) \<and> int32 (num_aristas g) \<and>
     (\<forall>x \<in> set (row_ptr g). int32 x) \<and> (\<forall>x \<in> set (col_indices g). int32 x)"

text \<open>
  Position \<open>p\<close> of \<open>col_indices\<close> is in the row of vertex \<open>u\<close>, and the pair
  \<open>e\<close> is the edge stored at position \<open>p\<close>: its source owns the row and its target
  is the column index there.
\<close>

definition en_fila :: "GrafoDisperso \<Rightarrow> int \<Rightarrow> int \<Rightarrow> bool" where
  "en_fila g u p \<longleftrightarrow> row_ptr g ! nat u \<le> p \<and> p < row_ptr g ! nat (u + 1)"

definition emite :: "GrafoDisperso \<Rightarrow> int \<times> int \<Rightarrow> int \<Rightarrow> bool" where
  "emite g e p \<longleftrightarrow> en_fila g (fst e) p \<and> snd e = col_indices g ! nat p"

text \<open>
  The invariants of the loops of \<^verbatim>\<open>bfs\<close>. The queue holds distinct vertices that
  are visited; a vertex that is visited and not in the queue has been dequeued. With
  \<open>ps\<close> the positions of \<open>col_indices\<close> the pairs of \<open>res\<close> were read at: they are
  distinct, and each lies in the row of a dequeued vertex (or, inside the inner loop on
  the row of \<open>u\<close>, in that row below the cursor \<open>i\<close>).
\<close>

definition cola_ok :: "GrafoDisperso \<Rightarrow> int list \<Rightarrow> int list \<Rightarrow> bool" where
  "cola_ok g vis q \<longleftrightarrow>
     length vis = nat (num_nodos g) \<and> distinct q \<and>
     (\<forall>w \<in> set q. 0 \<le> w \<and> w < num_nodos g \<and> 0 \<le> vis ! nat w)"

definition terminado :: "GrafoDisperso \<Rightarrow> int list \<Rightarrow> int list \<Rightarrow> int \<Rightarrow> bool" where
  "terminado g vis q u \<longleftrightarrow> 0 \<le> u \<and> u < num_nodos g \<and> vis ! nat u \<noteq> - 1 \<and> u \<notin> set q"

definition bfs_inv ::
  "GrafoDisperso \<Rightarrow> int list \<Rightarrow> int list \<Rightarrow> (int \<times> int) list \<Rightarrow> int list \<Rightarrow> bool" where
  "bfs_inv g vis q res ps \<longleftrightarrow>
     cola_ok g vis q \<and> distinct ps \<and> list_all2 (emite g) res ps \<and>
     (\<forall>p \<in> set ps. \<exists>u. terminado g vis q u \<and> en_fila g u p)"

definition bfs_for_inv ::
  "GrafoDisperso \<Rightarrow> int \<Rightarrow> int \<Rightarrow> int list \<Rightarrow> int list \<Rightarrow> (int \<times> int) list \<Rightarrow> int list \<Rightarrow> bool"
  where
  "bfs_for_inv g u i vis q res ps \<longleftrightarrow>
     cola_ok g vis q \<and> 0 \<le> u \<and> u < num_nodos g \<and> 0 \<le> vis ! nat u \<and> u \<notin> set q \<and>
     row_ptr g ! nat u \<le> i \<and> i \<le> row_ptr g ! nat (u + 1) \<and>
     distinct ps \<and> list_all2 (emite g) res ps \<and>
     (\<forall>p \<in> set ps. (en_fila g u p \<and> p < i) \<or>
        (\<exists>u'. u' \<noteq> u \<and> terminado g vis q u' \<and> en_fila g u' p))"

text \<open>A file system that holds the cache file \<^verbatim>\<open>grafo.txt.bin\<close> only.\<close>

definition fs_cache :: "string \<Rightarrow> filesystem" where
  "fs_cache bin = \<lparr>contents = Map.empty(''grafo.txt.bin'' \<mapsto> bin), writable = (\<lambda>p. True)\<rparr>"

text \<open>The triangle \<^verbatim>\<open>0 1, 1 2, 2 0\<close> as a CSR.\<close>

definition triangulo :: GrafoDisperso where
  "triangulo =
     \<lparr>row_ptr = [0, 1, 2, 3], col_indices = [1, 2, 0], num_nodos = 3, num_aristas = 3\<rparr>"

text \<open>
  What the critical-node query promises about its result \<open>r\<close>: -1 on a graph with no
  vertex; otherwise a vertex of maximal out-degree, and the lowest such vertex.
\<close>

definition critico_post :: "GrafoDisperso \<Rightarrow> int \<Rightarrow> bool" where
  "critico_post g r \<longleftrightarrow>
     (if num_nodos g = 0 then r = - 1
      else 0 \<le> r \<and> r < num_nodos g \<and>
        (\<forall>u. 0 \<le> u \<and> u < num_nodos g \<longrightarrow> grado g u \<le> grado g r) \<and>
        (\<forall>u. 0 \<le> u \<and> u < r \<longrightarrow> grado g u < grado g r))"

text \<open>
  The invariant of the loop of \<^verbatim>\<open>obtenerNodoCritico\<close> before iteration \<open>i\<close>: either
  nothing was seen yet, or \<open>ident\<close> is the lowest vertex of maximal out-degree
  \<open>max_d\<close> among the vertices below \<open>i\<close>.
\<close>

definition critico_inv :: "GrafoDisperso \<Rightarrow> int \<Rightarrow> int \<Rightarrow> int \<Rightarrow> bool" where
  "critico_inv g i max_d ident \<longleftrightarrow>
     (i = 0 \<and> ident = - 1 \<and> max_d = - 1) \<or>
     (0 \<le> ident \<and> ident < i \<and> max_d = grado g ident \<and>
      (\<forall>u. 0 \<le> u \<and> u < i \<longrightarrow> grado g u \<le> max_d) \<and>
      (\<forall>u. 0 \<le> u \<and> u < ident \<longrightarrow> grado g u < max_d))"

section \<open>Properties\<close>

subsection \<open>Basic facts about the error monad, vectors and rows\<close>

lemma bindE_Inl [simp]: "bindE (Inl e) f = Inl e"
  by (simp add: bindE_def)

lemma bindE_Inr [simp]: "bindE (Inr x) f = f x"
  by (simp add: bindE_def)

lemma bindE_eq_Inr: "bindE m f = Inr y \<longleftrightarrow> (\<exists>x. m = Inr x \<and> f x = Inr y)"
  by (cases m) simp_all

lemma at_eq_Inr: "at xs i = Inr x \<longleftrightarrow> 0 \<le> i \<and> i < int (length xs) \<and> x = xs ! nat i"
  by (auto simp: at_def)

lemma at_in_range: "0 \<le> i \<Longrightarrow> i < int (length xs) \<Longrightarrow> at xs i = Inr (xs ! nat i)"
  by (simp add: at_def)

lemma put_eq_Inr:
  "put xs i v = Inr ys \<longleftrightarrow> 0 \<le> i \<and> i < int (length xs) \<and> ys = xs[nat i := v]"
  by (auto simp: put_def)

lemma put_in_range: "0 \<le> i \<Longrightarrow> i < int (length xs) \<Longrightarrow> put xs i v = Inr (xs[nat i := v])"
  by (simp add: put_def)

lemma inc_eq_Inr: "inc x = Inr y \<longleftrightarrow> x < INT_MAX \<and> y = x + 1"
  by (auto simp: inc_def)

lemma csr_rows_nth_mono:
  assumes "csr_rows g" "i \<le> j" "j \<le> nat (num_nodos g)"
  shows "row_ptr g ! i \<le> row_ptr g ! j"
  using assms by (auto simp: csr_rows_def intro!: sorted_nth_mono)

lemma csr_rows_bounds:
  assumes "csr_rows g" "i \<le> nat (num_nodos g)"
  shows "0 \<le> row_ptr g ! i" "row_ptr g ! i \<le> num_aristas g"
proof -
  have "row_ptr g ! 0 \<le> row_ptr g ! i" using assms by (intro csr_rows_nth_mono) auto
  then show "0 \<le> row_ptr g ! i" using assms by (simp add: csr_rows_def)
  have "row_ptr g ! i \<le> row_ptr g ! nat (num_nodos g)"
    using assms by (intro csr_rows_nth_mono) auto
  then show "row_ptr g ! i \<le> num_aristas g" using assms by (simp add: csr_rows_def)
qed

lemma csr_rows_grado:
  assumes "csr_rows g" "0 \<le> u" "u < num_nodos g"
  shows "0 \<le> grado g u" "int32 (grado g u)"
proof -
  have le: "row_ptr g ! nat u \<le> row_ptr g ! nat (u + 1)"
    using assms by (intro csr_rows_nth_mono) auto
  then show "0 \<le> grado g u" by (simp add: grado_def)
  have "0 \<le> row_ptr g ! nat u" "row_ptr g ! nat (u + 1) \<le> num_aristas g"
    using assms by (auto intro!: csr_rows_bounds)
  moreover have "num_aristas g \<le> INT_MAX" using assms by (simp add: csr_rows_def)
  ultimately show "int32 (grado g u)"
    using le by (simp add: grado_def int32_def INT_MIN_def)
qed

subsection \<open>The codec of 32-bit integers\<close>

lemma length_encode32 [simp]: "length (encode32 x) = 4"
  by (simp add: encode32_def)

lemma length_encode_vec [simp]: "length (encode_vec xs) = 4 * length xs"
  by (induction xs) (simp_all add: encode_vec_def)

lemma encode_vec_Cons: "encode_vec (x # xs) = encode32 x @ encode_vec xs"
  by (simp add: encode_vec_def)

lemma bytes_mod: "(x::int) mod 4294967296 =
    x mod 256 + (x div 256) mod 256 * 256 + (x div 65536) mod 256 * 65536 +
    (x div 16777216) mod 256 * 16777216"
proof -
  define y where "y = x div 256"
  define z where "z = x div 65536"
  define t where "t = x div 16777216"
  have dy: "y div 256 = z"
    unfolding y_def z_def using zdiv_zmult2_eq [of 256 x 256] by simp
  have dz: "z div 256 = t"
    unfolding z_def t_def using zdiv_zmult2_eq [of 256 x 65536] by simp
  have 1: "x mod 4294967296 = 256 * (y mod 16777216) + x mod 256"
    unfolding y_def using zmod_zmult2_eq [of 16777216 x 256] by simp
  have 2: "y mod 16777216 = 256 * (z mod 65536) + y mod 256"
    using zmod_zmult2_eq [of 65536 y 256] by (simp add: dy)
  have 3: "z mod 65536 = 256 * (t mod 256) + z mod 256"
    using zmod_zmult2_eq [of 256 z 256] by (simp add: dz)
  have "x mod 4294967296 = x mod 256 + y mod 256 * 256 + z mod 256 * 65536 + t mod 256 * 16777216"
    unfolding 1 2 3 by simp
  then show ?thesis by (simp only: y_def z_def t_def)
qed

lemma decode32_4:
  "decode32 [a, b, c, d] =
     (let w = of_char a + of_char b * 256 + of_char c * 65536 + of_char d * 16777216
      in if w \<ge> 2147483648 then w - 4294967296 else w)"
  by (simp add: decode32_def Let_def)

lemma decode32_encode32_mod:
  "decode32 (encode32 x) =
     (if x mod 4294967296 \<ge> 2147483648 then x mod 4294967296 - 4294967296
      else x mod 4294967296)"
proof -
  have w: "of_char (char_of x :: char) + of_char (char_of (x div 256) :: char) * 256 +
           of_char (char_of (x div 65536) :: char) * 65536 +
           of_char (char_of (x div 16777216) :: char) * 16777216 = x mod 4294967296"
    by (simp only: of_char_of bytes_mod)
  show ?thesis
    by (simp only: encode32_def decode32_4 Let_def w)
qed

lemma decode32_encode32: "int32 x \<Longrightarrow> decode32 (encode32 x) = x"
proof -
  assume r: "int32 x"
  then have lo: "- 2147483648 \<le> x" and hi: "x \<le> 2147483647"
    by (simp_all add: int32_def INT_MIN_def INT_MAX_def)
  show ?thesis
  proof (cases "0 \<le> x")
    case True
    have "x mod 4294967296 = x"
      by (rule mod_pos_pos_trivial) (use True hi in linarith)+
    then show ?thesis
      using hi by (simp only: decode32_encode32_mod) simp
  next
    case False
    have "(x + 4294967296) mod 4294967296 = x + 4294967296"
      by (rule mod_pos_pos_trivial) (use False lo in linarith)+
    then have "x mod 4294967296 = x + 4294967296"
      by (simp only: mod_add_self2)
    then show ?thesis
      using False lo by (simp only: decode32_encode32_mod) simp
  qed
qed

lemma of_char_int_range: "0 \<le> (of_char e :: int) \<and> (of_char e :: int) < 256"
proof -
  have "(of_char e :: int) mod 256 = of_char e" by (rule of_char_mod_256)
  moreover have "0 \<le> (of_char e :: int) mod 256"
    by (rule pos_mod_sign) simp
  moreover have "(of_char e :: int) mod 256 < 256"
    by (rule pos_mod_bound) simp
  ultimately show ?thesis by (simp only:)
qed

lemma int32_decode32_4: "int32 (decode32 [a, b, c, d])"
proof -
  define w where "w = (of_char a :: int) + of_char b * 256 + of_char c * 65536 + of_char d * 16777216"
  have "0 \<le> w" "w < 4294967296"
    using of_char_int_range [of a] of_char_int_range [of b] of_char_int_range [of c]
      of_char_int_range [of d] unfolding w_def by linarith+
  moreover have "decode32 [a, b, c, d] = (if w \<ge> 2147483648 then w - 4294967296 else w)"
    unfolding decode32_4 Let_def w_def ..
  ultimately show ?thesis
    by (simp add: int32_def INT_MIN_def INT_MAX_def)
qed

lemma decode_vec_encode_vec: "\<forall>x \<in> set xs. int32 x \<Longrightarrow> decode_vec (encode_vec xs) = xs"
proof (induction xs)
  case Nil
  then show ?case by (simp add: encode_vec_def)
next
  case (Cons x xs)
  have enc: "encode32 x = [char_of x, char_of (x div 256), char_of (x div 65536), char_of (x div 16777216)]"
    by (simp add: encode32_def)
  have "decode_vec (encode_vec (x # xs)) = decode32 (encode32 x) # decode_vec (encode_vec xs)"
    unfolding encode_vec_Cons enc by simp
  with Cons show ?case by (simp add: decode32_encode32)
qed

lemma int32_decode_vec: "\<forall>x \<in> set (decode_vec bs). int32 x"
  by (induction bs rule: decode_vec.induct) (simp_all add: int32_decode32_4)


subsection \<open>Loads and traversals of concrete files\<close>

text \<open>
  Whatever its comments, a text file with no pair builds, on a new object, the graph of
  one vertex and no edge.
\<close>

lemma construirCSR_sin_aristas:
  assumes "read_pairs (skip_comments content) = []"
  shows "construirCSR GrafoDisperso_new content =
     Inr \<lparr>row_ptr = [0, 0], col_indices = [], num_nodos = 1, num_aristas = 0\<rparr>"
proof -
  have i: "inc 0 = Inr 1" "inc 1 = Inr 2" by (simp_all add: inc_def INT_MAX_def)
  have f: "vec_fill 2 0 = Inr [0, 0]" "vec_fill 1 0 = Inr [0]"
    by (simp_all add: vec_fill_def eval_nat_numeral)
  have r: "vec_resize [] 0 = Inr []" by (simp add: vec_resize_def)
  have p: "put [0, 0] 0 0 = Inr [0, 0]" by (simp add: put_def)
  have "suma_prefija 1 1 [0] [0, 0] = Inr [0, 0]"
    by (subst suma_prefija.simps) simp
  then have s: "suma_prefija 0 1 [0] [0, 0] = Inr [0, 0]"
    by (subst suma_prefija.simps) (simp add: at_def put_def)
  show ?thesis
    unfolding construirCSR_def Let_def assms
    by (simp add: GrafoDisperso_new_def i f r p s)
qed

text \<open>
  C1. The text file holds the one line \<^verbatim>\<open># comment\<close> and there is no cache file.
  The claim is that the load leaves 0 vertices, 0 edges, \<open>row_ptr = [0]\<close>, no column
  index, the critical node -1 and an empty \<open>bfs(0, 5)\<close>. The builder starts
  \<^verbatim>\<open>max_id\<close> at 0 and sets \<^verbatim>\<open>num_nodos = max_id + 1\<close>: the load leaves 1 vertex,
  \<open>row_ptr = [0, 0]\<close>, and the critical node is vertex 0. There are 0 edges, no column
  index, and \<open>bfs(0, 5)\<close> is empty.
\<close>

theorem carga_solo_comentarios:
  "cargar (fs_texto ''# comment\<newline>'') =
     Inr ([ProcesandoTexto],
          \<lparr>row_ptr = [0, 0], col_indices = [], num_nodos = 1, num_aristas = 0\<rparr>) \<and>
   obtenerNodoCritico \<lparr>row_ptr = [0, 0], col_indices = [], num_nodos = 1, num_aristas = 0\<rparr> =
     Inr (0, \<lparr>row_ptr = [0, 0], col_indices = [], num_nodos = 1, num_aristas = 0\<rparr>) \<and>
   bfs_tras_cargar (fs_texto ''# comment\<newline>'') 0 5 = Some (Inr [])"
  by code_simp

text \<open>
  C2, as the claim states it, fails: on the chain \<^verbatim>\<open>0 1, 1 2, 2 3, 3 4\<close> the call
  \<open>bfs(0, 2)\<close> does not return \<open>[(0,1), (1,2), (2,3)]\<close>.
\<close>

theorem bfs_cadena_no_emite_2_3:
  "bfs_tras_cargar (fs_texto ''0 1\<newline>1 2\<newline>2 3\<newline>3 4\<newline>'') 0 2 \<noteq>
     Some (Inr [(0, 1), (1, 2), (2, 3)])"
  by code_simp

text \<open>
  C2, amended. On the chain, \<open>bfs(0, 2)\<close> returns exactly \<open>[(0,1), (1,2)]\<close>: vertex 2
  is reached at level 2, and a vertex whose level is \<open>\<ge> depth\<close> is not expanded, so
  neither \<open>(2,3)\<close> nor \<open>(3,4)\<close> is emitted.
\<close>

theorem bfs_cadena_profundidad_2:
  "bfs_tras_cargar (fs_texto ''0 1\<newline>1 2\<newline>2 3\<newline>3 4\<newline>'') 0 2 =
     Some (Inr [(0, 1), (1, 2)])"
  by code_simp

text \<open>
  C4. The claim is that \<open>bfs\<close> returns the empty sequence for every start node outside
  \<open>[0, num_nodos)\<close>. The guard of \<open>bfs\<close> is \<^verbatim>\<open>startNode >= num_nodos\<close> only: on the
  triangle \<^verbatim>\<open>0 1, 1 2, 2 0\<close> the call \<open>bfs(-1, 1)\<close> goes on to \<^verbatim>\<open>vis[-1] = 0\<close>, a
  write outside the vector.
\<close>

theorem bfs_inicio_negativo:
  "bfs_tras_cargar (fs_texto ''0 1\<newline>1 2\<newline>2 0\<newline>'') (- 1) 1 = Some (Inl OutOfBounds)"
  by code_simp

text \<open>
  C6. The claim is that a load whose cache file cannot be read ends in the state of a load
  with no cache file. Here the cache file of the triangle stops after its header (3
  vertices, 3 edges). \<^verbatim>\<open>cargarDesdeCache\<close> has stored the 3 in \<^verbatim>\<open>num_aristas\<close>
  before it fails, and the text path counts the edges on top of it: the load ends with
  \<open>num_aristas = 6\<close> and six column indices, where the load with no cache file ends with 3.
\<close>

theorem cache_truncada_deja_aristas:
  "cargar (fs_texto_cache ''0 1\<newline>1 2\<newline>2 0\<newline>'' (encode32 3 @ encode32 3)) =
     Inr ([ProcesandoTexto],
          \<lparr>row_ptr = [0, 1, 2, 3], col_indices = [1, 2, 0, 0, 0, 0], num_nodos = 3,
           num_aristas = 6\<rparr>) \<and>
   cargar (fs_texto ''0 1\<newline>1 2\<newline>2 0\<newline>'') =
     Inr ([ProcesandoTexto],
          \<lparr>row_ptr = [0, 1, 2, 3], col_indices = [1, 2, 0], num_nodos = 3, num_aristas = 3\<rparr>)"
  by code_simp

subsection \<open>The three passes of the builder\<close>

lemma fila_Nil [simp]: "fila u [] = []"
  by (simp add: fila_def)

lemma fila_Cons [simp]: "fila u ((u', v) # es) = (if u' = u then v # fila u es else fila u es)"
  by (simp add: fila_def)

lemma read_int_int32: "read_int s = Some (x, r) \<Longrightarrow> int32 x"
  by (auto simp: read_int_def Let_def split: if_splits)

lemma read_pairs_int32: "(u, v) \<in> set (read_pairs s) \<Longrightarrow> int32 u \<and> int32 v"
proof (induction s rule: read_pairs.induct)
  case (1 s)
  show ?case
  proof (cases "read_int s")
    case None
    then have "read_pairs s = []" by (subst read_pairs.simps) simp
    with "1.prems" show ?thesis by simp
  next
    case (Some a)
    obtain u' s1 where ra: "read_int s = Some (u', s1)" using Some by (cases a) simp
    show ?thesis
    proof (cases "read_int s1")
      case None
      then have "read_pairs s = []" using ra by (subst read_pairs.simps) simp
      with "1.prems" show ?thesis by simp
    next
      case (Some b)
      obtain v' s2 where rb: "read_int s1 = Some (v', s2)" using Some by (cases b) simp
      have rp: "read_pairs s = (u', v') # read_pairs s2"
        by (subst read_pairs.simps) (simp add: ra rb)
      have "int32 u'" "int32 v'"
        using ra rb read_int_int32 by blast+
      moreover have "(u, v) \<in> set (read_pairs s2) \<Longrightarrow> int32 u \<and> int32 v"
        by (rule "1.IH" [OF ra refl rb refl])
      ultimately show ?thesis using "1.prems" unfolding rp by auto
    qed
  qed
qed

lemma pasada1_result:
  "pasada1 es m na = Inr (m', na') \<Longrightarrow>
     m \<le> m' \<and> (\<forall>(u, v) \<in> set es. u \<le> m' \<and> v \<le> m') \<and> na' = na + int (length es) \<and>
     (es \<noteq> [] \<longrightarrow> na' \<le> INT_MAX)"
proof (induction es arbitrary: m na)
  case Nil
  then show ?case by simp
next
  case (Cons e es)
  obtain u v where e: "e = (u, v)" by (cases e)
  define m2 where "m2 = (if v > (if u > m then u else m) then v else (if u > m then u else m))"
  from Cons.prems have na: "na < INT_MAX" and rec: "pasada1 es m2 (na + 1) = Inr (m', na')"
    by (auto simp: e m2_def Let_def bindE_eq_Inr inc_eq_Inr)
  from Cons.IH [OF rec] have ih: "m2 \<le> m'" "\<forall>(u, v) \<in> set es. u \<le> m' \<and> v \<le> m'"
    "na' = na + 1 + int (length es)" "es \<noteq> [] \<longrightarrow> na' \<le> INT_MAX"
    by auto
  have "m \<le> m2" "u \<le> m2" "v \<le> m2" by (auto simp: m2_def)
  with ih na show ?case by (cases "es = []") (auto simp: e)
qed

lemma pasada1_total:
  "na + int (length es) \<le> INT_MAX \<Longrightarrow> \<exists>m' na'. pasada1 es m na = Inr (m', na')"
proof (induction es arbitrary: m na)
  case Nil
  then show ?case by simp
next
  case (Cons e es)
  obtain u v where e: "e = (u, v)" by (cases e)
  from Cons.prems have "inc na = Inr (na + 1)" by (simp add: inc_def)
  moreover have "na + 1 + int (length es) \<le> INT_MAX" using Cons.prems by simp
  ultimately show ?case using Cons.IH [of "na + 1"] by (simp add: e Let_def)
qed

lemma sum_list_update_int:
  "k < length xs \<Longrightarrow> sum_list (xs[k := x]) = sum_list xs + x - (xs ! k :: int)"
  by (induction xs arbitrary: k) (auto split: nat.splits)

lemma pasada2_result:
  "pasada2 es counts = Inr counts' \<Longrightarrow>
     length counts' = length counts \<and>
     (\<forall>(u, v) \<in> set es. 0 \<le> u \<and> u < int (length counts)) \<and>
     (\<forall>k < length counts. counts' ! k = counts ! k + int (length (fila (int k) es))) \<and>
     sum_list counts' = sum_list counts + int (length es)"
proof (induction es arbitrary: counts)
  case Nil
  then show ?case by simp
next
  case (Cons e es)
  obtain u v where e: "e = (u, v)" by (cases e)
  define c1 where "c1 = counts[nat u := counts ! nat u + 1]"
  from Cons.prems have u: "0 \<le> u" "u < int (length counts)"
    and rec: "pasada2 es c1 = Inr counts'"
    by (auto simp: e c1_def bindE_eq_Inr at_eq_Inr put_eq_Inr)
  from Cons.IH [OF rec] have ih: "length counts' = length c1"
    "\<forall>(u, v) \<in> set es. 0 \<le> u \<and> u < int (length c1)"
    "\<forall>k < length c1. counts' ! k = c1 ! k + int (length (fila (int k) es))"
    "sum_list counts' = sum_list c1 + int (length es)"
    by auto
  have len: "length c1 = length counts" by (simp add: c1_def)
  have nu: "nat u < length counts" using u by simp
  have pt: "counts' ! k = counts ! k + int (length (fila (int k) (e # es)))"
    if "k < length counts" for k
  proof (cases "k = nat u")
    case True
    then have "int k = u" using u by simp
    then show ?thesis using ih(3) that len True by (simp add: e c1_def)
  next
    case False
    then have "int k \<noteq> u" using u by auto
    then show ?thesis using ih(3) that len False by (simp add: e c1_def)
  qed
  have "sum_list c1 = sum_list counts + 1"
    unfolding c1_def using sum_list_update_int [OF nu] by simp
  with ih len u pt show ?case by (auto simp: e)
qed

lemma pasada2_total:
  "\<forall>(u, v) \<in> set es. 0 \<le> u \<and> u < int (length counts) \<Longrightarrow>
     \<exists>counts'. pasada2 es counts = Inr counts'"
proof (induction es arbitrary: counts)
  case Nil
  then show ?case by simp
next
  case (Cons e es)
  obtain u v where e: "e = (u, v)" by (cases e)
  from Cons.prems have u: "0 \<le> u" "u < int (length counts)" by (auto simp: e)
  have "\<forall>(a, b) \<in> set es. 0 \<le> a \<and> a < int (length (counts[nat u := counts ! nat u + 1]))"
    using Cons.prems by simp
  from Cons.IH [OF this] u show ?case
    by (simp add: e at_in_range put_in_range)
qed


lemma suma_prefija_result:
  "suma_prefija i n counts rp = Inr rp' \<Longrightarrow> 0 \<le> i \<Longrightarrow>
     length rp' = length rp \<and> (\<forall>k. k \<le> nat i \<longrightarrow> rp' ! k = rp ! k) \<and>
     (\<forall>k. nat i \<le> k \<and> int k < n \<longrightarrow> rp' ! Suc k = rp' ! k + counts ! k)"
proof (induction i n counts rp rule: suma_prefija.induct)
  case (1 i n counts rp)
  show ?case
  proof (cases "i < n")
    case False
    with "1.prems" have "rp' = rp" by (simp add: suma_prefija.simps [of i])
    with False "1.prems" show ?thesis by auto
  next
    case True
    define rp1 where "rp1 = rp[nat (i + 1) := rp ! nat i + counts ! nat i]"
    from "1.prems" True have a: "at rp i = Inr (rp ! nat i)"
      and c: "at counts i = Inr (counts ! nat i)"
      and p: "put rp (i + 1) (rp ! nat i + counts ! nat i) = Inr rp1"
      and rec: "suma_prefija (i + 1) n counts rp1 = Inr rp'"
      by (auto simp: suma_prefija.simps [of i] bindE_eq_Inr at_eq_Inr put_eq_Inr rp1_def)
    from p have len: "nat (i + 1) < length rp" using "1.prems"(2) by (auto simp: put_eq_Inr)
    have ih: "length rp' = length rp1" "\<forall>k. k \<le> nat (i + 1) \<longrightarrow> rp' ! k = rp1 ! k"
      "\<forall>k. nat (i + 1) \<le> k \<and> int k < n \<longrightarrow> rp' ! Suc k = rp' ! k + counts ! k"
      using "1.IH" [OF True a c p rec] "1.prems"(2) by auto
    have s: "nat (i + 1) = Suc (nat i)" using "1.prems"(2) by simp
    have low: "rp' ! k = rp ! k" if "k \<le> nat i" for k
      using ih(2) that s by (simp add: rp1_def)
    have step: "rp' ! Suc k = rp' ! k + counts ! k" if "nat i \<le> k" "int k < n" for k
    proof (cases "k = nat i")
      case True
      have "rp' ! Suc (nat i) = rp1 ! Suc (nat i)" using ih(2) s by simp
      also have "\<dots> = rp ! nat i + counts ! nat i" using len s by (simp add: rp1_def)
      finally show ?thesis using low [of "nat i"] True by simp
    next
      case False
      with that s have "nat (i + 1) \<le> k" by simp
      with ih(3) that show ?thesis by simp
    qed
    show ?thesis using ih(1) low step by (simp add: rp1_def)
  qed
qed

lemma suma_prefija_total:
  "0 \<le> i \<Longrightarrow> length rp = nat (n + 1) \<Longrightarrow> length counts = nat n \<Longrightarrow>
     \<exists>rp'. suma_prefija i n counts rp = Inr rp'"
proof (induction i n counts rp rule: suma_prefija.induct)
  case (1 i n counts rp)
  show ?case
  proof (cases "i < n")
    case False
    then show ?thesis by (simp add: suma_prefija.simps [of i])
  next
    case True
    define rp1 where "rp1 = rp[nat (i + 1) := rp ! nat i + counts ! nat i]"
    have a: "at rp i = Inr (rp ! nat i)" and c: "at counts i = Inr (counts ! nat i)"
      and p: "put rp (i + 1) (rp ! nat i + counts ! nat i) = Inr rp1"
      using True "1.prems" by (simp_all add: at_def put_def rp1_def)
    have "\<exists>rp'. suma_prefija (i + 1) n counts rp1 = Inr rp'"
      using "1.IH" [OF True a c p] "1.prems" by (simp add: rp1_def)
    then show ?thesis using True a c p by (simp add: suma_prefija.simps [of i])
  qed
qed

lemma prefix_sums:
  assumes "\<forall>k < n. rp ! Suc k = rp ! k + (counts ! k :: int)" "rp ! 0 = 0" "n \<le> length counts"
  shows "k \<le> n \<Longrightarrow> rp ! k = sum_list (take k counts)"
proof (induction k)
  case 0
  then show ?case using assms by simp
next
  case (Suc k)
  then have "k < length counts" using assms by simp
  then show ?case using Suc assms by (simp add: take_Suc_conv_app_nth)
qed

lemma pasada3_correct:
  assumes "length cur = Suc n" "length rp = Suc n" "sorted rp" "0 \<le> rp ! 0"
    "rp ! n \<le> int (length col0)"
  shows "\<forall>(u, v) \<in> set es. 0 \<le> u \<and> u < int n \<Longrightarrow>
     \<forall>k < n. cur ! k + int (length (fila (int k) es)) = rp ! Suc k \<Longrightarrow>
     \<forall>k < n. rp ! k \<le> cur ! k \<Longrightarrow>
     length cur = Suc n \<Longrightarrow> length col = length col0 \<Longrightarrow>
     \<exists>col'. pasada3 es cur col = Inr col' \<and> length col' = length col \<and>
       (\<forall>k < n. \<forall>j < length (fila (int k) es). col' ! (nat (cur ! k) + j) = fila (int k) es ! j) \<and>
       (\<forall>p < length col. (\<forall>k < n. \<not> (cur ! k \<le> int p \<and> int p < rp ! Suc k)) \<longrightarrow> col' ! p = col ! p)"
proof (induction es arbitrary: cur col)
  case Nil
  then show ?case by simp
next
  case (Cons e es)
  obtain u v where e: "e = (u, v)" by (cases e)
  from Cons.prems(1) have u: "0 \<le> u" "u < int n" by (auto simp: e)
  define ku where "ku = nat u"
  have ku: "ku < n" "int ku = u" using u by (simp_all add: ku_def)
  define p where "p = cur ! ku"
  have mono: "rp ! i \<le> rp ! j" if "i \<le> j" "j \<le> n" for i j
    using assms(2,3) that by (auto intro!: sorted_nth_mono)
  have A: "p + 1 + int (length (fila u es)) = rp ! Suc ku"
    using Cons.prems(2) ku by (auto simp: e p_def)
  have p_hi: "p < rp ! Suc ku" using A by simp
  have p_lo: "rp ! ku \<le> p" using Cons.prems(3) ku by (simp add: p_def)
  have "rp ! 0 \<le> rp ! ku" using ku by (intro mono) auto
  then have p0: "0 \<le> p" using p_lo assms(4) by simp
  have "rp ! Suc ku \<le> rp ! n" using ku by (intro mono) auto
  then have p_len: "p < int (length col)"
    using p_hi assms(5) Cons.prems(5) by simp
  define cur1 where "cur1 = cur[ku := p + 1]"
  define col1 where "col1 = col[nat p := v]"
  have lcur: "length cur = Suc n" using Cons.prems(4) .
  have au: "at cur u = Inr p" using u lcur by (simp add: at_def p_def ku_def)
  have pc: "put col p v = Inr col1" using p0 p_len by (simp add: put_def col1_def)
  have pu: "put cur u (p + 1) = Inr cur1" using u lcur by (simp add: put_def cur1_def ku_def)
  have step: "pasada3 (e # es) cur col = pasada3 es cur1 col1"
    by (simp add: e au pc pu)
  have pre1: "\<forall>(u, v) \<in> set es. 0 \<le> u \<and> u < int n" using Cons.prems(1) by simp
  have pre2: "\<forall>k < n. cur1 ! k + int (length (fila (int k) es)) = rp ! Suc k"
  proof (intro allI impI)
    fix k assume k: "k < n"
    show "cur1 ! k + int (length (fila (int k) es)) = rp ! Suc k"
    proof (cases "k = ku")
      case True
      then show ?thesis using A ku lcur by (simp add: cur1_def)
    next
      case False
      then have "int k \<noteq> u" using ku by auto
      then show ?thesis using Cons.prems(2) k False by (auto simp: e cur1_def)
    qed
  qed
  have pre3: "\<forall>k < n. rp ! k \<le> cur1 ! k"
  proof (intro allI impI)
    fix k assume k: "k < n"
    show "rp ! k \<le> cur1 ! k"
      using Cons.prems(3) k p_lo lcur by (cases "k = ku") (auto simp: cur1_def p_def)
  qed
  have pre4: "length cur1 = Suc n" using lcur by (simp add: cur1_def)
  have pre5: "length col1 = length col0" using Cons.prems(5) by (simp add: col1_def)
  obtain col' where r: "pasada3 es cur1 col1 = Inr col'" and l: "length col' = length col1"
    and rows: "\<forall>k < n. \<forall>j < length (fila (int k) es).
        col' ! (nat (cur1 ! k) + j) = fila (int k) es ! j"
    and frame: "\<forall>q < length col1.
        (\<forall>k < n. \<not> (cur1 ! k \<le> int q \<and> int q < rp ! Suc k)) \<longrightarrow> col' ! q = col1 ! q"
    using Cons.IH [OF pre1 pre2 pre3 pre4 pre5] by blast
  have outside: "\<not> (cur1 ! k \<le> p \<and> p < rp ! Suc k)" if k: "k < n" for k
  proof (cases "k = ku")
    case True
    then show ?thesis using lcur k by (simp add: cur1_def)
  next
    case False
    show ?thesis
    proof (cases "k < ku")
      case True
      then have "rp ! Suc k \<le> rp ! ku" using ku by (intro mono) auto
      then show ?thesis using p_lo by simp
    next
      case ge: False
      with False have "Suc ku \<le> k" by simp
      then have "rp ! Suc ku \<le> rp ! k" using k by (intro mono) auto
      moreover have "rp ! k \<le> cur1 ! k" using pre3 k by simp
      ultimately show ?thesis using p_hi by simp
    qed
  qed
  have at_p: "col' ! nat p = v"
  proof -
    have "nat p < length col1" using p0 p_len by (simp add: col1_def)
    moreover have "\<forall>k < n. \<not> (cur1 ! k \<le> int (nat p) \<and> int (nat p) < rp ! Suc k)"
      using outside p0 by simp
    ultimately have "col' ! nat p = col1 ! nat p" using frame by blast
    then show ?thesis using p0 p_len by (simp add: col1_def)
  qed
  have rows': "col' ! (nat (cur ! k) + j) = fila (int k) (e # es) ! j"
    if k: "k < n" and j: "j < length (fila (int k) (e # es))" for k j
  proof (cases "k = ku")
    case False
    then have ne: "int k \<noteq> u" using ku by auto
    then have "j < length (fila (int k) es)" using j by (simp add: e)
    then have "col' ! (nat (cur1 ! k) + j) = fila (int k) es ! j" using rows k by blast
    then show ?thesis using False ne by (simp add: e cur1_def)
  next
    case True
    have f: "fila (int k) (e # es) = v # fila u es" using True ku by (simp add: e)
    show ?thesis
    proof (cases j)
      case 0
      then show ?thesis using at_p True f by (simp add: p_def)
    next
      case (Suc j')
      then have "j' < length (fila (int ku) es)" using j f ku by simp
      then have "col' ! (nat (cur1 ! ku) + j') = fila (int ku) es ! j'"
        using rows ku by blast
      moreover have "nat (cur1 ! ku) + j' = nat p + Suc j'"
        using lcur ku p0 by (simp add: cur1_def nat_add_distrib)
      ultimately show ?thesis using True f Suc ku by (simp add: p_def)
    qed
  qed
  have frame': "col' ! q = col ! q"
    if q: "q < length col" and out: "\<forall>k < n. \<not> (cur ! k \<le> int q \<and> int q < rp ! Suc k)" for q
  proof -
    have "\<not> (p \<le> int q \<and> int q < rp ! Suc ku)" using out ku by (simp add: p_def)
    then have "int q \<noteq> p" using p_hi by auto
    moreover have "int (nat p) = p" using p0 by simp
    ultimately have qp: "q \<noteq> nat p" by auto
    have "\<not> (cur1 ! k \<le> int q \<and> int q < rp ! Suc k)" if k: "k < n" for k
    proof (cases "k = ku")
      case True
      have "\<not> (p \<le> int q \<and> int q < rp ! Suc ku)" using out ku by (simp add: p_def)
      then show ?thesis using True lcur ku by (auto simp: cur1_def)
    next
      case False
      then show ?thesis using out k by (simp add: cur1_def)
    qed
    moreover have "q < length col1" using q by (simp add: col1_def)
    ultimately have "col' ! q = col1 ! q" using frame by blast
    then show ?thesis using qp by (simp add: col1_def)
  qed
  have "length col' = length col" using l by (simp add: col1_def)
  with r rows' frame' show ?case unfolding step by blast
qed

lemma pasada3_set:
  "pasada3 es cur col = Inr col' \<Longrightarrow> set col' \<subseteq> set col \<union> snd ` set es"
proof (induction es arbitrary: cur col)
  case Nil
  then show ?case by simp
next
  case (Cons e es)
  obtain u v where e: "e = (u, v)" by (cases e)
  from Cons.prems obtain p cur1 where
    rec: "pasada3 es cur1 (col[nat p := v]) = Inr col'"
    by (auto simp: e bindE_eq_Inr put_eq_Inr)
  from Cons.IH [OF rec] have "set col' \<subseteq> set (col[nat p := v]) \<union> snd ` set es" .
  moreover have "set (col[nat p := v]) \<subseteq> insert v (set col)" by (rule set_update_subset_insert)
  ultimately show ?case by (auto simp: e)
qed

lemma vec_fill_eq_Inr: "vec_fill n v = Inr xs \<longleftrightarrow> 0 \<le> n \<and> xs = replicate (nat n) v"
  by (auto simp: vec_fill_def)

lemma vec_resize_eq_Inr:
  "vec_resize xs n = Inr ys \<longleftrightarrow>
     0 \<le> n \<and> ys = take (nat n) xs @ replicate (nat n - length xs) 0"
  by (auto simp: vec_resize_def)

lemma length_resized: "length (take n xs @ replicate (n - length xs) (0::int)) = n"
  by simp

lemma set_resized: "set (take n xs @ replicate (n - length xs) (0::int)) \<subseteq> set xs \<union> {0}"
  by (auto dest: in_set_takeD)

lemma construirCSR_result:
  assumes ok: "construirCSR g content = Inr g'" and na0: "0 \<le> num_aristas g"
  defines "es \<equiv> read_pairs (skip_comments content)"
  shows "num_aristas g' = num_aristas g + int (length es)"
    and "es \<noteq> [] \<longrightarrow> num_aristas g' \<le> INT_MAX"
    and "1 \<le> num_nodos g'" and "num_nodos g' < INT_MAX"
    and "\<forall>(u, v) \<in> set es. 0 \<le> u \<and> u < num_nodos g' \<and> v < num_nodos g'"
    and "length (row_ptr g') = nat (num_nodos g' + 1)"
    and "length (col_indices g') = nat (num_aristas g')"
    and "sorted (row_ptr g')" and "row_ptr g' ! 0 = 0"
    and "row_ptr g' ! nat (num_nodos g') = int (length es)"
    and "set (col_indices g') \<subseteq> set (col_indices g) \<union> {0} \<union> snd ` set es"
    and "\<forall>k < nat (num_nodos g').
           row_ptr g' ! Suc k = row_ptr g' ! k + int (length (fila (int k) es)) \<and>
           (\<forall>j < length (fila (int k) es).
              col_indices g' ! (nat (row_ptr g' ! k) + j) = fila (int k) es ! j)"
proof -
  from ok obtain max_id na nn nn1 rp0 col0 counts0 counts rp1 rp col where
    p1: "pasada1 es 0 (num_aristas g) = Inr (max_id, na)" and
    i1: "inc max_id = Inr nn" and i2: "inc nn = Inr nn1" and
    f1: "vec_fill nn1 0 = Inr rp0" and rs: "vec_resize (col_indices g) na = Inr col0" and
    f2: "vec_fill nn 0 = Inr counts0" and p2: "pasada2 es counts0 = Inr counts" and
    pt: "put rp0 0 0 = Inr rp1" and sp: "suma_prefija 0 nn counts rp1 = Inr rp" and
    p3: "pasada3 es rp col0 = Inr col" and
    g': "g' = \<lparr>row_ptr = rp, col_indices = col, num_nodos = nn, num_aristas = na\<rparr>"
    unfolding construirCSR_def es_def Let_def
    by (auto simp: bindE_eq_Inr split: prod.splits)
  define n where "n = nat nn"
  from pasada1_result [OF p1] have m0: "0 \<le> max_id"
    and ids: "\<forall>(u, v) \<in> set es. u \<le> max_id \<and> v \<le> max_id"
    and na: "na = num_aristas g + int (length es)" and na_max: "es \<noteq> [] \<longrightarrow> na \<le> INT_MAX"
    by auto
  from i1 i2 have nn: "nn = max_id + 1" "nn < INT_MAX" "nn1 = nn + 1"
    by (auto simp: inc_eq_Inr)
  have nn_n: "nn = int n" "nat (nn + 1) = Suc n" using nn m0 by (simp_all add: n_def)
  from f1 have "rp0 = replicate (nat nn1) 0" by (simp add: vec_fill_eq_Inr)
  then have rp0: "rp0 = replicate (Suc n) 0" by (simp only: nn(3) nn_n(2))
  from f2 have counts0: "counts0 = replicate n 0" by (simp add: vec_fill_eq_Inr n_def)
  from rs have col0:
    "col0 = take (nat na) (col_indices g) @ replicate (nat na - length (col_indices g)) 0"
    by (simp add: vec_resize_eq_Inr)
  have lcol0: "length col0 = nat na" unfolding col0 by (rule length_resized)
  from pt have rp1: "rp1 = rp0" by (auto simp: put_eq_Inr rp0 list_update_same_conv)
  from pasada2_result [OF p2] have lc: "length counts = n"
    and us: "\<forall>(u, v) \<in> set es. 0 \<le> u \<and> u < int n"
    and cnt: "\<forall>k < n. counts ! k = int (length (fila (int k) es))"
    and total: "sum_list counts = int (length es)"
    by (auto simp: counts0 sum_list_replicate)
  from suma_prefija_result [OF sp] have lrp: "length rp = Suc n" and rp_0: "rp ! 0 = 0"
    and rec: "\<forall>k < n. rp ! Suc k = rp ! k + counts ! k"
    by (auto simp: rp1 rp0 nn_n)
  have srt: "sorted rp"
    unfolding sorted_iff_nth_Suc using rec cnt lrp by auto
  have "rp ! n = sum_list (take n counts)"
    using prefix_sums [OF rec rp_0, of n] lc by simp
  then have last: "rp ! n = int (length es)" using lc total by simp
  have "rp ! n \<le> int (length col0)" using last lcol0 na na0 by simp
  moreover have "\<forall>k < n. rp ! k + int (length (fila (int k) es)) = rp ! Suc k"
    using rec cnt by simp
  ultimately obtain col' where "pasada3 es rp col0 = Inr col'"
    and rows: "\<forall>k < n. \<forall>j < length (fila (int k) es).
       col' ! (nat (rp ! k) + j) = fila (int k) es ! j"
    using pasada3_correct [OF lrp lrp srt _ _ us, of col0 col0] rp_0 lrp by auto
  with p3 have col': "col' = col" by simp
  have lcol: "length col = nat na"
    using pasada3_correct [OF lrp lrp srt _ _ us, of col0 col0] rp_0 lrp
      \<open>rp ! n \<le> int (length col0)\<close> \<open>\<forall>k < n. rp ! k + int (length (fila (int k) es)) = rp ! Suc k\<close>
      p3 lcol0 by auto
  show "num_aristas g' = num_aristas g + int (length es)" by (simp add: g' na)
  show "es \<noteq> [] \<longrightarrow> num_aristas g' \<le> INT_MAX" using na_max by (simp add: g')
  show "1 \<le> num_nodos g'" using nn m0 by (simp add: g')
  show "num_nodos g' < INT_MAX" using nn by (simp add: g')
  show "\<forall>(u, v) \<in> set es. 0 \<le> u \<and> u < num_nodos g' \<and> v < num_nodos g'"
    using ids us nn by (auto simp: g')
  show "length (row_ptr g') = nat (num_nodos g' + 1)" using lrp nn_n by (simp add: g')
  show "length (col_indices g') = nat (num_aristas g')" using lcol by (simp add: g')
  show "sorted (row_ptr g')" using srt by (simp add: g')
  show "row_ptr g' ! 0 = 0" using rp_0 by (simp add: g')
  show "row_ptr g' ! nat (num_nodos g') = int (length es)" using last by (simp add: g' n_def)
  show "set (col_indices g') \<subseteq> set (col_indices g) \<union> {0} \<union> snd ` set es"
    using pasada3_set [OF p3] set_resized [of "nat na" "col_indices g"]
    by (auto simp: g' col0)
  show "\<forall>k < nat (num_nodos g').
           row_ptr g' ! Suc k = row_ptr g' ! k + int (length (fila (int k) es)) \<and>
           (\<forall>j < length (fila (int k) es).
              col_indices g' ! (nat (row_ptr g' ! k) + j) = fila (int k) es ! j)"
    using rec cnt rows by (simp add: g' col' n_def)
qed

lemma construirCSR_total:
  assumes "\<forall>(u, v) \<in> set (read_pairs (skip_comments content)).
             0 \<le> u \<and> u + 1 < INT_MAX \<and> v + 1 < INT_MAX"
    and "0 \<le> num_aristas g"
    and "num_aristas g + int (length (read_pairs (skip_comments content))) \<le> INT_MAX"
  shows "\<exists>g'. construirCSR g content = Inr g'"
proof -
  define es where "es = read_pairs (skip_comments content)"
  obtain max_id na where p1: "pasada1 es 0 (num_aristas g) = Inr (max_id, na)"
    using pasada1_total [of "num_aristas g" es 0] assms(3) by (auto simp: es_def)
  from pasada1_result [OF p1] have m0: "0 \<le> max_id"
    and ids: "\<forall>(u, v) \<in> set es. u \<le> max_id \<and> v \<le> max_id"
    and na: "na = num_aristas g + int (length es)"
    by auto
  have bound: "max_id + 1 < INT_MAX"
  proof -
    have "pasada1 es m a = Inr (m', a') \<Longrightarrow> m + 1 < INT_MAX \<Longrightarrow>
        \<forall>(u, v) \<in> set es. u + 1 < INT_MAX \<and> v + 1 < INT_MAX \<Longrightarrow> m' + 1 < INT_MAX"
      for m a m' a'
    proof (induction es arbitrary: m a)
      case Nil
      then show ?case by simp
    next
      case (Cons e es)
      obtain u v where e: "e = (u, v)" by (cases e)
      from Cons.prems(1) obtain m2 a2 where rec: "pasada1 es m2 a2 = Inr (m', a')"
        and m2: "m2 = (if v > (if u > m then u else m) then v else (if u > m then u else m))"
        by (auto simp: e Let_def bindE_eq_Inr)
      have "m2 + 1 < INT_MAX" using Cons.prems(2,3) by (auto simp: m2 e)
      from Cons.IH [OF rec this] Cons.prems(3) show ?case by simp
    qed
    from this [OF p1] assms(1) show ?thesis by (auto simp: es_def INT_MAX_def)
  qed
  define nn where "nn = max_id + 1"
  define n where "n = nat nn"
  have nn_n: "nn = int n" "nat (nn + 1) = Suc n" using m0 by (simp_all add: n_def nn_def)
  have i1: "inc max_id = Inr nn" and i2: "inc nn = Inr (nn + 1)"
    using bound by (simp_all add: inc_def nn_def)
  have f1: "vec_fill (nn + 1) 0 = Inr (replicate (Suc n) 0)"
    and f2: "vec_fill nn 0 = Inr (replicate n 0)"
    using m0 nn_n by (simp_all add: vec_fill_def n_def)
  define col0 where
    "col0 = take (nat na) (col_indices g) @ replicate (nat na - length (col_indices g)) 0"
  have rs: "vec_resize (col_indices g) na = Inr col0"
    using na assms(2) by (simp add: vec_resize_def col0_def)
  have lcol0: "length col0 = nat na" unfolding col0_def by (rule length_resized)
  have us: "\<forall>(u, v) \<in> set es. 0 \<le> u \<and> u < int n"
    using ids assms(1) nn_n by (auto simp: es_def nn_def)
  obtain counts where p2: "pasada2 es (replicate n 0) = Inr counts"
    using pasada2_total [of es "replicate n 0"] us by auto
  from pasada2_result [OF p2] have lc: "length counts = n"
    and cnt: "\<forall>k < n. counts ! k = int (length (fila (int k) es))"
    and total: "sum_list counts = int (length es)"
    by (auto simp: sum_list_replicate)
  have pt: "put (replicate (Suc n) 0) 0 0 = Inr (replicate (Suc n) 0)"
    by (simp add: put_def list_update_same_conv)
  obtain rp where sp: "suma_prefija 0 nn counts (replicate (Suc n) 0) = Inr rp"
    using suma_prefija_total [of 0 "replicate (Suc n) 0" nn counts] lc nn_n by auto
  from suma_prefija_result [OF sp] have lrp: "length rp = Suc n" and rp_0: "rp ! 0 = 0"
    and rec: "\<forall>k < n. rp ! Suc k = rp ! k + counts ! k"
    by (auto simp: nn_n)
  have srt: "sorted rp"
    unfolding sorted_iff_nth_Suc using rec cnt lrp by auto
  have "rp ! n = sum_list (take n counts)"
    using prefix_sums [OF rec rp_0, of n] lc by simp
  then have last: "rp ! n = int (length es)" using lc total by simp
  have "rp ! n \<le> int (length col0)" using last lcol0 na assms(2) by simp
  moreover have "\<forall>k < n. rp ! k + int (length (fila (int k) es)) = rp ! Suc k"
    using rec cnt by simp
  ultimately obtain col where p3: "pasada3 es rp col0 = Inr col"
    using pasada3_correct [OF lrp lrp srt _ _ us, of col0 col0] rp_0 lrp by auto
  show ?thesis
    unfolding construirCSR_def Let_def es_def [symmetric]
    by (simp add: p1 i1 i2 f1 f2 rs p2 pt sp p3 del: replicate_Suc)
qed

subsection \<open>Reading and writing the cache\<close>

lemma stream_read_exact:
  "length buf = length a \<Longrightarrow> stream_read buf (a @ rest, True) = (a, (rest, True))"
  by (simp add: stream_read_def)

lemma length_stream_read: "length (fst (stream_read buf st)) = length buf"
  by (cases st) (auto simp: stream_read_def)

lemma length_decode_vec: "length (decode_vec bs) = length bs div 4"
  by (induction bs rule: decode_vec.induct) simp_all

lemma int32_decode32: "length bs = 4 \<Longrightarrow> int32 (decode32 bs)"
proof -
  assume "length bs = 4"
  then have "length bs = Suc (Suc (Suc (Suc 0)))" by simp
  then obtain a b c d where "bs = [a, b, c, d]"
    by (auto simp: length_Suc_conv)
  then show ?thesis by (simp add: int32_decode32_4)
qed


lemma cargarDesdeCache_result:
  assumes ok: "cargarDesdeCache g0 fs c = Inr (b, g1)" and fichero: "contents fs c = Some bytes"
  shows "int32 (num_nodos g1)" and "int32 (num_aristas g1)" and "0 \<le> num_aristas g1"
    and "\<forall>x \<in> set (row_ptr g1). int32 x" and "\<forall>x \<in> set (col_indices g1). int32 x"
    and "length (row_ptr g1) = nat (num_nodos g1 + 1)"
    and "length (col_indices g1) = nat (num_aristas g1)"
proof -
  obtain b1 st1 where s1: "stream_read (encode32 (num_nodos g0)) (bytes, True) = (b1, st1)"
    by (cases "stream_read (encode32 (num_nodos g0)) (bytes, True)")
  obtain b2 st2 where s2: "stream_read (encode32 (num_aristas g0)) st1 = (b2, st2)"
    by (cases "stream_read (encode32 (num_aristas g0)) st1")
  define nn where "nn = decode32 b1"
  define na where "na = decode32 b2"
  from ok obtain nn1 rp0 col0 where i: "inc nn = Inr nn1"
    and r1: "vec_resize (row_ptr g0) nn1 = Inr rp0"
    and r2: "vec_resize (col_indices g0) na = Inr col0"
    and g1: "g1 = \<lparr>row_ptr = decode_vec (fst (stream_read (encode_vec rp0) st2)),
               col_indices = decode_vec
                 (fst (stream_read (encode_vec col0) (snd (stream_read (encode_vec rp0) st2)))),
               num_nodos = nn, num_aristas = na\<rparr>"
    unfolding cargarDesdeCache_def
    by (auto simp: fichero s1 s2 nn_def na_def Let_def bindE_eq_Inr case_prod_beta)
  have "length b1 = 4" "length b2 = 4"
    using length_stream_read [of "encode32 (num_nodos g0)" "(bytes, True)"]
      length_stream_read [of "encode32 (num_aristas g0)" st1] s1 s2 by simp_all
  then have t: "int32 nn" "int32 na" by (simp_all add: nn_def na_def int32_decode32)
  from i have nn1: "nn1 = nn + 1" by (simp add: inc_eq_Inr)
  from r1 r2 have l: "length rp0 = nat nn1" "length col0 = nat na" "0 \<le> na"
    by (auto simp: vec_resize_eq_Inr)
  show "int32 (num_nodos g1)" "int32 (num_aristas g1)" "0 \<le> num_aristas g1"
    using t l by (simp_all add: g1)
  show "\<forall>x \<in> set (row_ptr g1). int32 x" "\<forall>x \<in> set (col_indices g1). int32 x"
    using int32_decode_vec by (simp_all add: g1)
  show "length (row_ptr g1) = nat (num_nodos g1 + 1)"
    using l nn1 by (simp add: g1 length_decode_vec length_stream_read)
  show "length (col_indices g1) = nat (num_aristas g1)"
    using l by (simp add: g1 length_decode_vec length_stream_read)
qed

lemma cargarDesdeCache_guardado:
  assumes t: "ints32 g"
    and l1: "length (row_ptr g) = nat (num_nodos g + 1)"
    and l2: "length (col_indices g) = nat (num_aristas g)"
    and n0: "0 \<le> num_aristas g" "0 \<le> num_nodos g + 1" "num_nodos g < INT_MAX"
    and fichero: "contents fs c = Some (encode32 (num_nodos g) @ encode32 (num_aristas g) @
                 encode_vec (row_ptr g) @ encode_vec (col_indices g))"
  shows "cargarDesdeCache g0 fs c = Inr (True, g)"
proof -
  define rp0 where "rp0 = take (nat (num_nodos g + 1)) (row_ptr g0) @
    replicate (nat (num_nodos g + 1) - length (row_ptr g0)) 0"
  define col0 where "col0 = take (nat (num_aristas g)) (col_indices g0) @
    replicate (nat (num_aristas g) - length (col_indices g0)) 0"
  have lr: "length rp0 = length (row_ptr g)" unfolding rp0_def l1 by (rule length_resized)
  have lc: "length col0 = length (col_indices g)" unfolding col0_def l2 by (rule length_resized)
  have s1: "stream_read (encode32 (num_nodos g0))
      (encode32 (num_nodos g) @ encode32 (num_aristas g) @
                 encode_vec (row_ptr g) @ encode_vec (col_indices g), True) =
      (encode32 (num_nodos g),
       (encode32 (num_aristas g) @ encode_vec (row_ptr g) @ encode_vec (col_indices g), True))"
    by (rule stream_read_exact) simp
  have s2: "stream_read (encode32 (num_aristas g0))
      (encode32 (num_aristas g) @ encode_vec (row_ptr g) @ encode_vec (col_indices g), True) =
      (encode32 (num_aristas g), (encode_vec (row_ptr g) @ encode_vec (col_indices g), True))"
    by (rule stream_read_exact) simp
  have s3: "stream_read (encode_vec rp0)
      (encode_vec (row_ptr g) @ encode_vec (col_indices g), True) =
      (encode_vec (row_ptr g), (encode_vec (col_indices g), True))"
    by (rule stream_read_exact) (simp add: lr)
  have s4: "stream_read (encode_vec col0) (encode_vec (col_indices g), True) =
      (encode_vec (col_indices g), ([], True))"
    using stream_read_exact [of "encode_vec col0" "encode_vec (col_indices g)" "[]"]
    by (simp add: lc)
  have d1: "decode32 (encode32 (num_nodos g)) = num_nodos g"
    and d2: "decode32 (encode32 (num_aristas g)) = num_aristas g"
    and d3: "decode_vec (encode_vec (row_ptr g)) = row_ptr g"
    and d4: "decode_vec (encode_vec (col_indices g)) = col_indices g"
    using t by (simp_all add: ints32_def decode32_encode32 decode_vec_encode_vec)
  have i: "inc (num_nodos g) = Inr (num_nodos g + 1)" using n0 by (simp add: inc_def)
  have r1: "vec_resize (row_ptr g0) (num_nodos g + 1) = Inr rp0"
    and r2: "vec_resize (col_indices g0) (num_aristas g) = Inr col0"
    using n0 by (simp_all add: vec_resize_def rp0_def col0_def)
  show ?thesis
    unfolding cargarDesdeCache_def
    by (simp add: fichero s1 s2 d1 d2 i r1 r2 s3 s4 d3 d4 Let_def)
qed

lemma cargarDatos_texto:
  assumes "cargarDatos g0 fs path = Inr ([ProcesandoTexto], g, fs')"
  shows "\<exists>g1 content. contents fs path = Some content \<and> construirCSR g1 content = Inr g \<and>
      fs' = snd (guardarCache g fs (path @ ''.bin'')) \<and>
      (if fileExists fs (path @ ''.bin'')
       then cargarDesdeCache g0 fs (path @ ''.bin'') = Inr (False, g1) else g1 = g0)"
  using assms unfolding cargarDatos_def Let_def
  by (auto simp: bindE_eq_Inr split: if_splits option.splits)

lemma cargarDatos_cache:
  assumes "cargarDatos g0 fs path = Inr ([CacheCargada], g, fs')"
  shows "fileExists fs (path @ ''.bin'') \<and>
      cargarDesdeCache g0 fs (path @ ''.bin'') = Inr (True, g) \<and> fs' = fs"
  using assms unfolding cargarDatos_def Let_def
  by (auto simp: bindE_eq_Inr split: if_splits option.splits)

lemma cargar_eq_Inr:
  "cargar fs = Inr (out, g) \<longleftrightarrow>
     (\<exists>fs'. cargarDatos GrafoDisperso_new fs ''grafo.txt'' = Inr (out, g, fs'))"
  by (auto simp: cargar_def split: sum.splits)

subsection \<open>The invariants after a load\<close>

text \<open>
  C3, as the claim states it, fails. A cache file that parses cleanly is loaded as it is:
  the file that holds 1 vertex, 1 edge, \<open>row_ptr = [0, 1]\<close> and \<open>col_indices = [7]\<close>
  loads, and 7 is not a vertex of a graph of 1 vertex.
\<close>

theorem cache_sin_validar:
  "cargar (fs_cache (encode32 1 @ encode32 1 @ encode_vec [0, 1] @ encode_vec [7])) =
     Inr ([CacheCargada],
          \<lparr>row_ptr = [0, 1], col_indices = [7], num_nodos = 1, num_aristas = 1\<rparr>) \<and>
   \<not> cols_in_range \<lparr>row_ptr = [0, 1], col_indices = [7], num_nodos = 1, num_aristas = 1\<rparr>"
  by code_simp

text \<open>
  C3, amended. After a successful load on a new object: when the graph was read from the
  cache file, \<open>row_ptr\<close> has length \<open>num_nodos + 1\<close> and \<open>col_indices\<close> has length
  \<open>num_aristas\<close> (the content of the arrays is the file's); when it was built from the
  text file with no cache file present and no target of the edge stream is negative, all
  the CSR invariants hold.
\<close>

theorem carga_establece_invariantes:
  "cargarDatos GrafoDisperso_new fs path = Inr (out, g, fs') \<Longrightarrow>
     (out = [CacheCargada] \<longrightarrow>
        length (row_ptr g) = nat (num_nodos g + 1) \<and>
        length (col_indices g) = nat (num_aristas g)) \<and>
     (out = [ProcesandoTexto] \<and> \<not> fileExists fs (path @ ''.bin'') \<and>
      (\<forall>content. contents fs path = Some content \<longrightarrow>
         (\<forall>(u, v) \<in> set (read_pairs (skip_comments content)). 0 \<le> v)) \<longrightarrow>
        csr_invariants g)"
proof (intro conjI impI)
  assume ok: "cargarDatos GrafoDisperso_new fs path = Inr (out, g, fs')"
    and "out = [CacheCargada]"
  then have ex: "fileExists fs (path @ ''.bin'')"
    and c: "cargarDesdeCache GrafoDisperso_new fs (path @ ''.bin'') = Inr (True, g)"
    using cargarDatos_cache by blast+
  from ex obtain bytes where "contents fs (path @ ''.bin'') = Some bytes"
    by (auto simp: fileExists_def)
  from cargarDesdeCache_result(6,7) [OF c this]
  show "length (row_ptr g) = nat (num_nodos g + 1)"
    and "length (col_indices g) = nat (num_aristas g)" .
next
  assume ok: "cargarDatos GrafoDisperso_new fs path = Inr (out, g, fs')"
    and h: "out = [ProcesandoTexto] \<and> \<not> fileExists fs (path @ ''.bin'') \<and>
      (\<forall>content. contents fs path = Some content \<longrightarrow>
         (\<forall>(u, v) \<in> set (read_pairs (skip_comments content)). 0 \<le> v))"
  then obtain content where f: "contents fs path = Some content"
    and b: "construirCSR GrafoDisperso_new content = Inr g"
    using cargarDatos_texto [of GrafoDisperso_new fs path g fs'] by auto
  define es where "es = read_pairs (skip_comments content)"
  have vs: "\<forall>(u, v) \<in> set es. 0 \<le> v" using h f by (simp add: es_def)
  have na0: "0 \<le> num_aristas GrafoDisperso_new" by (simp add: GrafoDisperso_new_def)
  note r = construirCSR_result [OF b na0, folded es_def]
  have na: "num_aristas g = int (length es)" using r(1) by (simp add: GrafoDisperso_new_def)
  have "num_aristas g \<le> INT_MAX"
    using r(2) na by (cases "es = []") (simp_all add: INT_MAX_def)
  then have rows: "csr_rows g"
    unfolding csr_rows_def using r(3,6,8,9,10) na by simp
  have "0 \<le> x \<and> x < num_nodos g" if "x \<in> set (col_indices g)" for x
  proof -
    from that r(11) have "x = 0 \<or> x \<in> snd ` set es" by (auto simp: GrafoDisperso_new_def)
    then show ?thesis
    proof
      assume "x = 0"
      then show ?thesis using r(3) by simp
    next
      assume "x \<in> snd ` set es"
      then obtain u where "(u, x) \<in> set es" by auto
      then show ?thesis using vs r(5) by auto
    qed
  qed
  then show "csr_invariants g"
    unfolding csr_invariants_def cols_in_range_def using rows r(7) by simp
qed

theorem carga_establece_invariantes_witness:
  "cargar (fs_texto ''0 1\<newline>1 2\<newline>2 0\<newline>'') = Inr ([ProcesandoTexto], triangulo) \<and>
   csr_invariants triangulo \<and>
   cargar (fs_cache (encode32 3 @ encode32 3 @ encode_vec [0, 1, 2, 3] @ encode_vec [1, 2, 0])) =
     Inr ([CacheCargada], triangulo) \<and>
   length (row_ptr triangulo) = nat (num_nodos triangulo + 1) \<and>
   length (col_indices triangulo) = nat (num_aristas triangulo)"
proof -
  define texto where "texto = ''0 1\<newline>1 2\<newline>2 0\<newline>''"
  define binario where
    "binario = encode32 3 @ encode32 3 @ encode_vec [0, 1, 2, 3] @ encode_vec [1, 2, 0]"
  have t: "cargar (fs_texto texto) = Inr ([ProcesandoTexto], triangulo)"
    unfolding texto_def by code_simp
  have c: "cargar (fs_cache binario) = Inr ([CacheCargada], triangulo)"
    unfolding binario_def by code_simp
  from t obtain fs1 where t1: "cargarDatos GrafoDisperso_new (fs_texto texto) ''grafo.txt'' =
      Inr ([ProcesandoTexto], triangulo, fs1)"
    by (auto simp: cargar_eq_Inr)
  from c obtain fs2 where c1: "cargarDatos GrafoDisperso_new (fs_cache binario) ''grafo.txt'' =
      Inr ([CacheCargada], triangulo, fs2)"
    by (auto simp: cargar_eq_Inr)
  have nc: "\<not> fileExists (fs_texto texto) (''grafo.txt'' @ ''.bin'')"
    by (simp add: fs_texto_def fileExists_def)
  have es: "read_pairs (skip_comments texto) = [(0, 1), (1, 2), (2, 0)]"
    unfolding texto_def by code_simp
  have vs: "\<forall>content. contents (fs_texto texto) ''grafo.txt'' = Some content \<longrightarrow>
      (\<forall>(u, v) \<in> set (read_pairs (skip_comments content)). 0 \<le> v)"
    by (simp add: fs_texto_def es)
  have "csr_invariants triangulo"
    using carga_establece_invariantes [OF t1] nc vs by blast
  moreover have "length (row_ptr triangulo) = nat (num_nodos triangulo + 1) \<and>
      length (col_indices triangulo) = nat (num_aristas triangulo)"
    using carga_establece_invariantes [OF c1] by blast
  ultimately show ?thesis using t c unfolding texto_def binario_def by blast
qed

subsection \<open>The round trip through the cache\<close>

text \<open>
  C7. A load on a new object that builds the graph from the text file and can write the
  cache file leaves a file system on which a load on a new object reads the cache file and
  ends with the same \<open>num_nodos\<close>, \<open>num_aristas\<close>, \<open>row_ptr\<close> and \<open>col_indices\<close>.
\<close>

theorem ida_y_vuelta_cache:
  assumes ld: "cargarDatos GrafoDisperso_new fs path = Inr ([ProcesandoTexto], g, fs')"
    and wr: "writable fs (path @ ''.bin'')"
  shows "cargarDatos GrafoDisperso_new fs' path = Inr ([CacheCargada], g, fs')"
proof -
  define c where "c = path @ ''.bin''"
  from cargarDatos_texto [OF ld] obtain g1 content where f: "contents fs path = Some content"
    and b: "construirCSR g1 content = Inr g"
    and fs': "fs' = snd (guardarCache g fs c)"
    and g1: "if fileExists fs c then cargarDesdeCache GrafoDisperso_new fs c = Inr (False, g1)
             else g1 = GrafoDisperso_new"
    unfolding c_def by blast
  have t1: "int32 (num_aristas g1) \<and> 0 \<le> num_aristas g1 \<and> (\<forall>x \<in> set (col_indices g1). int32 x)"
  proof (cases "fileExists fs c")
    case True
    then obtain bytes where "contents fs c = Some bytes" by (auto simp: fileExists_def)
    moreover have "cargarDesdeCache GrafoDisperso_new fs c = Inr (False, g1)"
      using g1 True by simp
    ultimately show ?thesis using cargarDesdeCache_result(2,3,5) by blast
  next
    case False
    then show ?thesis using g1 by (simp add: GrafoDisperso_new_def int32_def INT_MIN_def INT_MAX_def)
  qed
  define es where "es = read_pairs (skip_comments content)"
  from t1 have na1: "0 \<le> num_aristas g1" by simp
  note r = construirCSR_result [OF b na1, folded es_def]
  have na_hi: "num_aristas g \<le> INT_MAX"
    using r(1,2) t1 by (cases "es = []") (simp_all add: int32_def)
  have na_lo: "0 \<le> num_aristas g" using r(1) na1 by simp
  have len_le: "int (length es) \<le> num_aristas g" using r(1) na1 by simp
  have rp_range: "int32 x" if "x \<in> set (row_ptr g)" for x
  proof -
    from that obtain k where k: "k < length (row_ptr g)" "x = row_ptr g ! k"
      by (auto simp: in_set_conv_nth)
    have "row_ptr g ! 0 \<le> row_ptr g ! k" using r(8) k by (intro sorted_nth_mono) auto
    moreover have "row_ptr g ! k \<le> row_ptr g ! nat (num_nodos g)"
      using r(3,6,8) k by (intro sorted_nth_mono) auto
    ultimately show ?thesis
      using r(9,10) len_le na_hi k by (simp add: int32_def INT_MIN_def)
  qed
  have col_range: "int32 x" if "x \<in> set (col_indices g)" for x
  proof -
    from that r(11) consider "x \<in> set (col_indices g1)" | "x = 0" | "x \<in> snd ` set es" by auto
    then show ?thesis
    proof cases
      case 1
      then show ?thesis using t1 by simp
    next
      case 2
      then show ?thesis by (simp add: int32_def INT_MIN_def INT_MAX_def)
    next
      case 3
      then obtain u where "(u, x) \<in> set es" by auto
      then show ?thesis using read_pairs_int32 unfolding es_def by blast
    qed
  qed
  have t: "ints32 g"
    unfolding ints32_def using r(3,4) na_hi na_lo rp_range col_range
    by (simp add: int32_def INT_MIN_def INT_MAX_def)
  have fs'_eq: "fs' = fs\<lparr>contents := (contents fs)(c \<mapsto>
              encode32 (num_nodos g) @ encode32 (num_aristas g) @
              encode_vec (row_ptr g) @ encode_vec (col_indices g))\<rparr>"
    using wr by (simp add: fs' guardarCache_def c_def)
  then have written: "contents fs' c = Some (encode32 (num_nodos g) @ encode32 (num_aristas g) @
              encode_vec (row_ptr g) @ encode_vec (col_indices g))"
    by simp
  have "cargarDesdeCache GrafoDisperso_new fs' c = Inr (True, g)"
    using cargarDesdeCache_guardado [OF t r(6,7) na_lo _ r(4) written] r(3) by simp
  moreover have "fileExists fs' c" using written by (simp add: fileExists_def)
  ultimately show ?thesis
    unfolding cargarDatos_def Let_def c_def [symmetric] by simp
qed

theorem ida_y_vuelta_cache_witness:
  "\<exists>fs'. cargarDatos GrafoDisperso_new (fs_texto ''0 1\<newline>1 2\<newline>2 0\<newline>'') ''grafo.txt'' =
           Inr ([ProcesandoTexto], triangulo, fs') \<and>
         cargarDatos GrafoDisperso_new fs' ''grafo.txt'' = Inr ([CacheCargada], triangulo, fs')"
proof -
  define texto where "texto = ''0 1\<newline>1 2\<newline>2 0\<newline>''"
  have "cargar (fs_texto texto) = Inr ([ProcesandoTexto], triangulo)"
    unfolding texto_def by code_simp
  then obtain fs' where t: "cargarDatos GrafoDisperso_new (fs_texto texto) ''grafo.txt'' =
      Inr ([ProcesandoTexto], triangulo, fs')"
    by (auto simp: cargar_eq_Inr)
  have "writable (fs_texto texto) (''grafo.txt'' @ ''.bin'')" by (simp add: fs_texto_def)
  from ida_y_vuelta_cache [OF t this] t show ?thesis unfolding texto_def by blast
qed

subsection \<open>Negative identifiers in the edge stream\<close>

text \<open>
  C5, as the claim states it, fails. The stream \<^verbatim>\<open>0 -1\<close> is not rejected: the load
  completes and -1 is stored in \<open>col_indices\<close>. On the stream \<^verbatim>\<open>-1 0\<close> the second
  pass indexes \<^verbatim>\<open>counts[-1]\<close>.
\<close>

theorem carga_con_negativos:
  "cargar (fs_texto ''0 -1\<newline>'') =
     Inr ([ProcesandoTexto],
          \<lparr>row_ptr = [0, 1], col_indices = [- 1], num_nodos = 1, num_aristas = 1\<rparr>) \<and>
   cargar (fs_texto ''-1 0\<newline>'') = Inl OutOfBounds"
  by code_simp

text \<open>
  C5, amended. The builder does not look at the sign of an identifier. For every text file
  whose pairs all have a non-negative source (identifiers at most \<open>INT_MAX - 2\<close>, at most
  \<open>INT_MAX\<close> pairs), loaded on a new object with no cache file, the load completes, and
  the row of every vertex \<open>u\<close> holds the targets of the pairs of source \<open>u\<close> in the
  order of the file, whatever their sign: every target of the stream, negative ones
  included, is in \<open>col_indices\<close>.
\<close>

theorem carga_no_valida_signo:
  assumes f: "contents fs path = Some content"
    and nc: "\<not> fileExists fs (path @ ''.bin'')"
    and ids: "\<forall>(u, v) \<in> set (read_pairs (skip_comments content)).
                0 \<le> u \<and> u + 1 < INT_MAX \<and> v + 1 < INT_MAX"
    and cnt: "int (length (read_pairs (skip_comments content))) \<le> INT_MAX"
  shows "\<exists>g fs'. cargarDatos GrafoDisperso_new fs path = Inr ([ProcesandoTexto], g, fs') \<and>
      (\<forall>u. 0 \<le> u \<and> u < num_nodos g \<longrightarrow>
         vecinos g u = fila u (read_pairs (skip_comments content))) \<and>
      (\<forall>(u, v) \<in> set (read_pairs (skip_comments content)). v \<in> set (col_indices g))"
proof -
  define es where "es = read_pairs (skip_comments content)"
  have na0: "0 \<le> num_aristas GrafoDisperso_new" by (simp add: GrafoDisperso_new_def)
  obtain g where b: "construirCSR GrafoDisperso_new content = Inr g"
    using construirCSR_total [OF ids na0] cnt by (auto simp: GrafoDisperso_new_def)
  have ld: "cargarDatos GrafoDisperso_new fs path =
      Inr ([ProcesandoTexto], g, snd (guardarCache g fs (path @ ''.bin'')))"
    unfolding cargarDatos_def Let_def using nc by (simp add: f b)
  note r = construirCSR_result [OF b na0, folded es_def]
  have na: "num_aristas g = int (length es)" using r(1) by (simp add: GrafoDisperso_new_def)
  have row: "vecinos g u = fila u es" if u: "0 \<le> u" "u < num_nodos g" for u
  proof -
    define k where "k = nat u"
    have k: "k < nat (num_nodos g)" "int k = u" "nat (u + 1) = Suc k"
      using u by (simp_all add: k_def)
    have "row_ptr g ! 0 \<le> row_ptr g ! k" using r(6,8) k by (intro sorted_nth_mono) auto
    then have lo: "0 \<le> row_ptr g ! k" using r(9) by simp
    from r(12) k have nx: "row_ptr g ! Suc k = row_ptr g ! k + int (length (fila u es))"
      and pt: "\<forall>j < length (fila u es). col_indices g ! (nat (row_ptr g ! k) + j) = fila u es ! j"
      by auto
    have hi: "nat (row_ptr g ! Suc k) = nat (row_ptr g ! k) + length (fila u es)"
      using nx lo by (simp add: nat_add_distrib)
    show ?thesis
      unfolding vecinos_def k(3) k_def [symmetric] hi
      using pt by (intro nth_equalityI) auto
  qed
  have mem: "v \<in> set (col_indices g)" if e: "(u, v) \<in> set es" for u v
  proof -
    from e r(5) have u: "0 \<le> u" "u < num_nodos g" by auto
    define k where "k = nat u"
    have k: "k < nat (num_nodos g)" "nat (u + 1) = Suc k" using u by (simp_all add: k_def)
    have "v \<in> set (fila u es)" using e by (force simp: fila_def)
    then have "v \<in> set (vecinos g u)" using row [OF u] by simp
    then obtain i where i: "i < nat (row_ptr g ! Suc k)" "v = col_indices g ! i"
      unfolding vecinos_def k(2) by auto
    have "row_ptr g ! Suc k \<le> row_ptr g ! nat (num_nodos g)"
      using r(6,8) k by (intro sorted_nth_mono) auto
    then have "i < length (col_indices g)" using i r(7,10) na by simp
    then show ?thesis using i by simp
  qed
  show ?thesis using ld row mem unfolding es_def by blast
qed

theorem carga_no_valida_signo_witness:
  "\<exists>g. cargar (fs_texto ''0 -1\<newline>'') = Inr ([ProcesandoTexto], g) \<and>
       - 1 \<in> set (col_indices g)"
proof -
  define texto where "texto = ''0 -1\<newline>''"
  have f: "contents (fs_texto texto) ''grafo.txt'' = Some texto" by (simp add: fs_texto_def)
  have nc: "\<not> fileExists (fs_texto texto) (''grafo.txt'' @ ''.bin'')"
    by (simp add: fs_texto_def fileExists_def)
  have es: "read_pairs (skip_comments texto) = [(0, - 1)]"
    unfolding texto_def by code_simp
  have ids: "\<forall>(u, v) \<in> set (read_pairs (skip_comments texto)).
      0 \<le> u \<and> u + 1 < INT_MAX \<and> v + 1 < INT_MAX"
    by (simp add: es INT_MAX_def)
  have cnt: "int (length (read_pairs (skip_comments texto))) \<le> INT_MAX"
    by (simp add: es INT_MAX_def)
  from carga_no_valida_signo [OF f nc ids cnt] obtain g fs' where
    "cargarDatos GrafoDisperso_new (fs_texto texto) ''grafo.txt'' = Inr ([ProcesandoTexto], g, fs')"
    "\<forall>(u, v) \<in> set (read_pairs (skip_comments texto)). v \<in> set (col_indices g)"
    by blast
  then have "cargar (fs_texto texto) = Inr ([ProcesandoTexto], g)" "- 1 \<in> set (col_indices g)"
    by (auto simp: cargar_eq_Inr es)
  then show ?thesis unfolding texto_def by blast
qed

subsection \<open>The critical node\<close>

lemma nodo_critico_loop_inv:
  "csr_rows g \<Longrightarrow> 0 \<le> i \<Longrightarrow> i \<le> num_nodos g \<Longrightarrow> critico_inv g i max_d ident \<Longrightarrow>
     \<exists>r. nodo_critico_loop g i max_d ident = Inr r \<and> critico_post g r"
proof (induction g i max_d ident rule: nodo_critico_loop.induct)
  case (1 g i max_d ident)
  note rows = "1.prems"(1) and i0 = "1.prems"(2) and inv = "1.prems"(4)
  show ?case
  proof (cases "i < num_nodos g")
    case False
    with "1.prems" have "i = num_nodos g" by simp
    with inv show ?thesis
      by (subst nodo_critico_loop.simps) (auto simp: critico_inv_def critico_post_def)
  next
    case True
    have len: "i + 1 < int (length (row_ptr g))"
      using rows True i0 by (simp add: csr_rows_def)
    have d: "0 \<le> grado g i" "int32 (grado g i)"
      using csr_rows_grado [OF rows i0 True] by simp_all
    have b: "at (row_ptr g) (i + 1) = Inr (row_ptr g ! nat (i + 1))"
      using len i0 by (simp add: at_def)
    have a: "at (row_ptr g) i = Inr (row_ptr g ! nat i)"
      using len i0 by (simp add: at_def)
    have dd: "row_ptr g ! nat (i + 1) - row_ptr g ! nat i = grado g i"
      by (simp add: grado_def)
    show ?thesis
    proof (cases "grado g i > max_d")
      case gt: True
      have below: "grado g u \<le> max_d" if "0 \<le> u" "u < i" for u
        using inv that unfolding critico_inv_def by auto
      have inv': "critico_inv g (i + 1) (grado g i) i"
        unfolding critico_inv_def
      proof (intro disjI2 conjI allI impI)
        fix u assume "0 \<le> u \<and> u < i + 1"
        then show "grado g u \<le> grado g i"
          using below [of u] gt by (cases "u = i") auto
      next
        fix u assume "0 \<le> u \<and> u < i"
        then show "grado g u < grado g i"
          using below [of u] gt by auto
      qed (use i0 in auto)
      have "\<exists>r. nodo_critico_loop g (i + 1) (grado g i) i = Inr r \<and> critico_post g r"
        using "1.IH"(1) [OF True b a] rows inv' d gt True i0 by (simp add: dd)
      then show ?thesis
        using True a b d gt by (subst nodo_critico_loop.simps) (simp add: dd)
    next
      case le: False
      have snd: "0 \<le> ident \<and> ident < i \<and> max_d = grado g ident \<and>
          (\<forall>u. 0 \<le> u \<and> u < i \<longrightarrow> grado g u \<le> max_d) \<and>
          (\<forall>u. 0 \<le> u \<and> u < ident \<longrightarrow> grado g u < max_d)"
        using inv le d unfolding critico_inv_def by auto
      have inv': "critico_inv g (i + 1) max_d ident"
        unfolding critico_inv_def
      proof (intro disjI2 conjI allI impI)
        fix u assume "0 \<le> u \<and> u < i + 1"
        then show "grado g u \<le> max_d"
          using snd le by (cases "u = i") auto
      qed (use snd in auto)
      have "\<exists>r. nodo_critico_loop g (i + 1) max_d ident = Inr r \<and> critico_post g r"
        using "1.IH"(2) [OF True b a] rows inv' d le True i0 by (simp add: dd)
      then show ?thesis
        using True a b d le by (subst nodo_critico_loop.simps) (simp add: dd)
    qed
  qed
qed


text \<open>
  C8, as the claim states it, fails. The cache file is trusted: a file that holds 1
  vertex, 0 edges and \<open>row_ptr = [1, 0]\<close> loads, its only vertex has out-degree -1, and
  the query returns -1 on a graph with \<open>num_nodos = 1\<close>.
\<close>

theorem nodo_critico_cache_decreciente:
  "cargar (fs_cache (encode32 1 @ encode32 0 @ encode_vec [1, 0])) =
     Inr ([CacheCargada],
          \<lparr>row_ptr = [1, 0], col_indices = [], num_nodos = 1, num_aristas = 0\<rparr>) \<and>
   obtenerNodoCritico \<lparr>row_ptr = [1, 0], col_indices = [], num_nodos = 1, num_aristas = 0\<rparr> =
     Inr (- 1, \<lparr>row_ptr = [1, 0], col_indices = [], num_nodos = 1, num_aristas = 0\<rparr>)"
  by code_simp

text \<open>
  C8, amended. On every graph whose \<open>row_ptr\<close> satisfies the invariants of the data
  model (length \<open>num_nodos + 1\<close>, non-decreasing, from 0 to \<open>num_aristas\<close>) the query
  returns, leaves the graph as it is, and its result is -1 when there is no vertex and
  otherwise the lowest vertex among those of maximal out-degree.
\<close>

theorem nodo_critico_maximo:
  "csr_rows g \<Longrightarrow> \<exists>r. obtenerNodoCritico g = Inr (r, g) \<and> critico_post g r"
proof -
  assume rows: "csr_rows g"
  have "critico_inv g 0 (- 1) (- 1)" by (simp add: critico_inv_def)
  moreover have "0 \<le> num_nodos g" using rows by (simp add: csr_rows_def)
  ultimately obtain r where "nodo_critico_loop g 0 (- 1) (- 1) = Inr r" "critico_post g r"
    using nodo_critico_loop_inv [OF rows, of 0 "- 1" "- 1"] by auto
  then show ?thesis by (auto simp: obtenerNodoCritico_def)
qed

theorem nodo_critico_maximo_witness:
  "csr_rows triangulo \<and> obtenerNodoCritico triangulo = Inr (0, triangulo) \<and>
   critico_post triangulo 0"
proof -
  have rows: "csr_rows triangulo" by code_simp
  have r: "obtenerNodoCritico triangulo = Inr (0, triangulo)" by code_simp
  from nodo_critico_maximo [OF rows] r have "critico_post triangulo 0" by auto
  with rows r show ?thesis by simp
qed

subsection \<open>The bounded breadth-first traversal\<close>

text \<open>
  The three cases of the start node and the depth that end \<^verbatim>\<open>bfs\<close> at once: a start
  node at or above \<open>num_nodos\<close> and a depth that is not positive return the empty
  sequence; a negative start node passes the guard and writes outside \<open>vis\<close>.
\<close>

lemma bfs_inicio_grande: "num_nodos g \<le> s \<Longrightarrow> bfs g s d = Some (Inr ([], g))"
  by (simp add: bfs_def)

lemma bfs_profundidad_no_positiva:
  assumes "0 \<le> s" "s < num_nodos g" "d \<le> 0"
  shows "bfs g s d = Some (Inr ([], g))"
proof -
  define vis1 where "vis1 = (replicate (nat (num_nodos g)) (- 1 :: int))[nat s := 0]"
  have f: "vec_fill (num_nodos g) (- 1) = Inr (replicate (nat (num_nodos g)) (- 1))"
    using assms by (simp add: vec_fill_def)
  have p: "put (replicate (nat (num_nodos g)) (- 1)) s 0 = Inr vis1"
    using assms by (simp add: put_def vis1_def)
  have a: "at vis1 s = Inr 0" using assms by (simp add: at_def vis1_def)
  have "bfs_while g d vis1 [] [] = Some (Inr [])"
    by (subst bfs_while.simps) simp
  then have "bfs_while g d vis1 [s] [] = Some (Inr [])"
    using assms(3) by (subst bfs_while.simps) (simp add: a)
  then show ?thesis unfolding bfs_def using assms by (simp add: f p)
qed

lemma bfs_inicio_bajo_cero:
  "s < 0 \<Longrightarrow> 0 \<le> num_nodos g \<Longrightarrow> bfs g s d = Some (Inl OutOfBounds)"
  by (simp add: bfs_def vec_fill_def put_def)

lemma count_list_update:
  "k < length xs \<Longrightarrow> xs ! k = a \<Longrightarrow> b \<noteq> a \<Longrightarrow>
     Suc (count_list (xs[k := b]) a) = count_list xs a"
  by (induction xs arbitrary: k) (auto split: nat.splits)

lemma en_fila_bounds:
  assumes "csr_rows g" "0 \<le> u" "u < num_nodos g" "en_fila g u p"
  shows "0 \<le> p" "p < num_aristas g"
proof -
  have "0 \<le> row_ptr g ! nat u" using assms by (intro csr_rows_bounds) auto
  then show "0 \<le> p" using assms by (simp add: en_fila_def)
  have "row_ptr g ! nat (u + 1) \<le> num_aristas g" using assms by (intro csr_rows_bounds) auto
  then show "p < num_aristas g" using assms by (simp add: en_fila_def)
qed

lemma filas_disjuntas:
  assumes "csr_rows g" "0 \<le> u" "u < num_nodos g" "0 \<le> u'" "u' < num_nodos g"
    "en_fila g u p" "en_fila g u' p"
  shows "u = u'"
proof (rule ccontr)
  assume ne: "u \<noteq> u'"
  have less: "False" if "a < b" "0 \<le> a" "b < num_nodos g" "en_fila g a p" "en_fila g b p" for a b
  proof -
    have "row_ptr g ! nat (a + 1) \<le> row_ptr g ! nat b"
      using assms(1) that by (intro csr_rows_nth_mono) auto
    then show False using that by (simp add: en_fila_def)
  qed
  show False
  proof (cases "u < u'")
    case True
    then show False using less [of u u'] assms by simp
  next
    case False
    with ne have "u' < u" by simp
    then show False using less [of u' u] assms by simp
  qed
qed

lemma bfs_for_correct:
  assumes inv: "csr_invariants g"
  shows "bfs_for_inv g u i vis q res ps \<Longrightarrow>
     \<exists>vis' q' res' ps'. bfs_for g u i vis q res = Inr (vis', q', res') \<and>
        bfs_for_inv g u (row_ptr g ! nat (u + 1)) vis' q' res' ps' \<and>
        count_list vis' (- 1) + length q' = count_list vis (- 1) + length q"
proof (induction "nat (row_ptr g ! nat (u + 1) - i)" arbitrary: i vis q res ps)
  case 0
  define hi where "hi = row_ptr g ! nat (u + 1)"
  from "0.prems" have u: "0 \<le> u" "u < num_nodos g" and le: "i \<le> hi"
    by (simp_all add: bfs_for_inv_def hi_def)
  with "0.hyps" have i: "i = hi" by (simp add: hi_def)
  have "length (row_ptr g) = nat (num_nodos g + 1)"
    using inv by (simp add: csr_invariants_def csr_rows_def)
  then have "at (row_ptr g) (u + 1) = Inr hi" using u by (simp add: at_def hi_def)
  then have "bfs_for g u i vis q res = Inr (vis, q, res)"
    by (subst bfs_for.simps) (simp add: i)
  then show ?case using "0.prems" i unfolding hi_def by blast
next
  case (Suc k)
  define hi where "hi = row_ptr g ! nat (u + 1)"
  define n where "n = num_nodos g"
  have rows: "csr_rows g" and lcol: "length (col_indices g) = nat (num_aristas g)"
    and cols: "cols_in_range g"
    using inv by (simp_all add: csr_invariants_def)
  from Suc.prems have ok: "cola_ok g vis q" and u: "0 \<le> u" "u < n" and vu: "0 \<le> vis ! nat u"
    and uq: "u \<notin> set q" and lo: "row_ptr g ! nat u \<le> i" and dps: "distinct ps"
    and em: "list_all2 (emite g) res ps"
    and own: "\<forall>p \<in> set ps. (en_fila g u p \<and> p < i) \<or>
        (\<exists>u'. u' \<noteq> u \<and> terminado g vis q u' \<and> en_fila g u' p)"
    by (simp_all add: bfs_for_inv_def n_def)
  from ok have lvis: "length vis = nat n" and dq: "distinct q"
    and qs: "\<forall>w \<in> set q. 0 \<le> w \<and> w < n \<and> 0 \<le> vis ! nat w"
    by (simp_all add: cola_ok_def n_def)
  from Suc.hyps(2) have lt: "i < hi" and k: "k = nat (hi - (i + 1))" by (simp_all add: hi_def)
  have fila_i: "en_fila g u i" using lo lt by (simp add: en_fila_def hi_def)
  have i_range: "0 \<le> i" "i < num_aristas g"
    using en_fila_bounds [OF rows _ _ fila_i] u by (simp_all add: n_def)
  have "length (row_ptr g) = nat (n + 1)" using rows by (simp add: csr_rows_def n_def)
  then have at_hi: "at (row_ptr g) (u + 1) = Inr hi" using u by (simp add: at_def hi_def)
  define v where "v = col_indices g ! nat i"
  have at_col: "at (col_indices g) i = Inr v" using i_range lcol by (simp add: at_def v_def)
  have "nat i < length (col_indices g)" using i_range lcol by simp
  then have "v \<in> set (col_indices g)" unfolding v_def by (rule nth_mem)
  then have v: "0 \<le> v" "v < n" using cols by (auto simp: cols_in_range_def n_def)
  have at_v: "at vis v = Inr (vis ! nat v)" using v lvis by (simp add: at_def)
  have at_u: "at vis u = Inr (vis ! nat u)" using u lvis by (simp add: at_def)
  have fresh: "i \<notin> set ps"
  proof
    assume "i \<in> set ps"
    with own consider "i < i" | u' where "u' \<noteq> u" "terminado g vis q u'" "en_fila g u' i"
      by blast
    then show False
    proof cases
      case 1
      then show False by simp
    next
      case 2
      then have "0 \<le> u'" "u' < num_nodos g" by (simp_all add: terminado_def)
      from filas_disjuntas [OF rows _ _ this fila_i 2(3)] u 2(1) show False
        by (simp add: n_def)
    qed
  qed
  have em': "list_all2 (emite g) (res @ [(u, v)]) (ps @ [i])"
    using em fila_i by (intro list_all2_appendI) (simp_all add: emite_def v_def)
  have dps': "distinct (ps @ [i])" using dps fresh by simp
  have hi': "i + 1 \<le> hi" using lt by simp
  show ?case
  proof (cases "vis ! nat v = - 1")
    case False
    have own': "\<forall>p \<in> set (ps @ [i]). (en_fila g u p \<and> p < i + 1) \<or>
        (\<exists>u'. u' \<noteq> u \<and> terminado g vis q u' \<and> en_fila g u' p)"
      using own fila_i by auto
    have "bfs_for_inv g u (i + 1) vis q (res @ [(u, v)]) (ps @ [i])"
      unfolding bfs_for_inv_def
      using ok u vu uq lo hi' dps' em' own' by (simp add: n_def hi_def)
    from Suc.hyps(1) [OF k [unfolded hi_def] this]
    obtain vis' q' res' ps' where
      r: "bfs_for g u (i + 1) vis q (res @ [(u, v)]) = Inr (vis', q', res')"
      and i': "bfs_for_inv g u (row_ptr g ! nat (u + 1)) vis' q' res' ps'"
      and c': "count_list vis' (- 1) + length q' = count_list vis (- 1) + length q"
      by blast
    have "bfs_for g u i vis q res = bfs_for g u (i + 1) vis q (res @ [(u, v)])"
      by (subst bfs_for.simps) (simp add: at_hi lt at_col at_v False)
    with r i' c' show ?thesis by auto
  next
    case True
    define vis1 where "vis1 = vis[nat v := vis ! nat u + 1]"
    have put_v: "put vis v (vis ! nat u + 1) = Inr vis1"
      using v lvis by (simp add: put_def vis1_def)
    have vu_ne: "v \<noteq> u" using True vu by auto
    have nat_ne: "nat w \<noteq> nat v" if "w \<noteq> v" "0 \<le> w" for w
      using that v by auto
    have v_notin: "v \<notin> set q" using qs True by force
    have same: "vis1 ! nat w = vis ! nat w" if "w \<noteq> v" "0 \<le> w" for w
      using nat_ne [OF that] by (simp add: vis1_def)
    have vis1_v: "vis1 ! nat v = vis ! nat u + 1" using v lvis by (simp add: vis1_def)
    have ok1: "cola_ok g vis1 (q @ [v])"
      unfolding cola_ok_def
    proof (intro conjI ballI)
      show "length vis1 = nat (num_nodos g)" using lvis by (simp add: vis1_def n_def)
      show "distinct (q @ [v])" using dq v_notin by simp
    next
      fix w assume w: "w \<in> set (q @ [v])"
      show "0 \<le> w" "w < num_nodos g" "0 \<le> vis1 ! nat w"
      proof -
        have "0 \<le> w \<and> w < num_nodos g \<and> 0 \<le> vis1 ! nat w"
        proof (cases "w = v")
          case True
          then show ?thesis using v vis1_v vu by (simp add: n_def)
        next
          case False
          with w have wq: "w \<in> set q" by simp
          then have "0 \<le> w" "w < n" "0 \<le> vis ! nat w" using qs by auto
          then show ?thesis using same [OF False] by (simp add: n_def)
        qed
        then show "0 \<le> w" "w < num_nodos g" "0 \<le> vis1 ! nat w" by simp_all
      qed
    qed
    have term1: "terminado g vis1 (q @ [v]) u'" if t: "terminado g vis q u'" for u'
    proof -
      from t have "u' \<noteq> v" using True by (auto simp: terminado_def)
      moreover from t have "0 \<le> u'" by (simp add: terminado_def)
      ultimately show ?thesis using t same [of u'] by (simp add: terminado_def)
    qed
    have own1: "\<forall>p \<in> set (ps @ [i]). (en_fila g u p \<and> p < i + 1) \<or>
        (\<exists>u'. u' \<noteq> u \<and> terminado g vis1 (q @ [v]) u' \<and> en_fila g u' p)"
    proof
      fix p assume "p \<in> set (ps @ [i])"
      then consider "p = i" | "p \<in> set ps" by auto
      then show "(en_fila g u p \<and> p < i + 1) \<or>
        (\<exists>u'. u' \<noteq> u \<and> terminado g vis1 (q @ [v]) u' \<and> en_fila g u' p)"
      proof cases
        case 1
        then show ?thesis using fila_i by simp
      next
        case 2
        with own consider "en_fila g u p \<and> p < i"
          | u' where "u' \<noteq> u" "terminado g vis q u'" "en_fila g u' p"
          by blast
        then show ?thesis
        proof cases
          case 1
          then show ?thesis by simp
        next
          case 2
          then show ?thesis using term1 by blast
        qed
      qed
    qed
    have vu1: "0 \<le> vis1 ! nat u" using same [of u] vu_ne u vu by simp
    have uq1: "u \<notin> set (q @ [v])" using uq vu_ne by simp
    have "bfs_for_inv g u (i + 1) vis1 (q @ [v]) (res @ [(u, v)]) (ps @ [i])"
      unfolding bfs_for_inv_def
      using ok1 u vu1 uq1 lo hi' dps' em' own1 by (simp add: n_def hi_def)
    from Suc.hyps(1) [OF k [unfolded hi_def] this]
    obtain vis' q' res' ps' where
      r: "bfs_for g u (i + 1) vis1 (q @ [v]) (res @ [(u, v)]) = Inr (vis', q', res')"
      and i': "bfs_for_inv g u (row_ptr g ! nat (u + 1)) vis' q' res' ps'"
      and c': "count_list vis' (- 1) + length (q') =
               count_list vis1 (- 1) + length (q @ [v])"
      by blast
    have "Suc (count_list vis1 (- 1)) = count_list vis (- 1)"
      unfolding vis1_def using v lvis True vu by (intro count_list_update) auto
    with c' have c: "count_list vis' (- 1) + length q' = count_list vis (- 1) + length q"
      by simp
    have "bfs_for g u i vis q res = bfs_for g u (i + 1) vis1 (q @ [v]) (res @ [(u, v)])"
      by (subst bfs_for.simps) (simp add: at_hi lt at_col at_v True at_u put_v)
    with r i' c show ?thesis by auto
  qed
qed

lemma bfs_for_inv_final:
  "bfs_for_inv g u (row_ptr g ! nat (u + 1)) vis q res ps \<Longrightarrow> bfs_inv g vis q res ps"
proof -
  assume a: "bfs_for_inv g u (row_ptr g ! nat (u + 1)) vis q res ps"
  then have tu: "terminado g vis q u" by (auto simp: bfs_for_inv_def terminado_def)
  from a have "\<forall>p \<in> set ps. en_fila g u p \<or> (\<exists>u'. terminado g vis q u' \<and> en_fila g u' p)"
    unfolding bfs_for_inv_def by blast
  with tu have "\<forall>p \<in> set ps. \<exists>u'. terminado g vis q u' \<and> en_fila g u' p" by blast
  with a show ?thesis by (simp add: bfs_for_inv_def bfs_inv_def)
qed

lemma terminado_pop: "terminado g vis (u # q) u' \<Longrightarrow> u' \<noteq> u \<and> terminado g vis q u'"
  by (auto simp: terminado_def)

lemma cola_ok_pop: "cola_ok g vis (u # q) \<Longrightarrow> cola_ok g vis q \<and> u \<notin> set q"
  by (auto simp: cola_ok_def)

lemma bfs_inv_pop_skip: "bfs_inv g vis (u # q) res ps \<Longrightarrow> bfs_inv g vis q res ps"
  unfolding bfs_inv_def using terminado_pop cola_ok_pop by blast

lemma bfs_inv_pop_expand:
  assumes "csr_rows g" "bfs_inv g vis (u # q) res ps"
  shows "bfs_for_inv g u (row_ptr g ! nat u) vis q res ps"
proof -
  from assms(2) have ok: "cola_ok g vis (u # q)" and dps: "distinct ps"
    and em: "list_all2 (emite g) res ps"
    and own: "\<forall>p \<in> set ps. \<exists>u'. terminado g vis (u # q) u' \<and> en_fila g u' p"
    by (simp_all add: bfs_inv_def)
  from ok have u: "0 \<le> u" "u < num_nodos g" "0 \<le> vis ! nat u"
    by (simp_all add: cola_ok_def)
  have "row_ptr g ! nat u \<le> row_ptr g ! nat (u + 1)"
    using assms(1) u by (intro csr_rows_nth_mono) auto
  moreover have "\<forall>p \<in> set ps. (en_fila g u p \<and> p < row_ptr g ! nat u) \<or>
      (\<exists>u'. u' \<noteq> u \<and> terminado g vis q u' \<and> en_fila g u' p)"
    using own terminado_pop by blast
  ultimately show ?thesis
    unfolding bfs_for_inv_def using cola_ok_pop [OF ok] u dps em by simp
qed

lemma bfs_while_correct:
  assumes inv: "csr_invariants g"
  shows "bfs_inv g vis q res ps \<Longrightarrow>
     \<exists>vis' res' ps'. bfs_while g depth vis q res = Some (Inr res') \<and> bfs_inv g vis' [] res' ps'"
proof (induction "count_list vis (- 1) + length q" arbitrary: vis q res ps rule: less_induct)
  case less
  have rows: "csr_rows g" using inv by (simp add: csr_invariants_def)
  show ?case
  proof (cases q)
    case Nil
    then have "bfs_while g depth vis q res = Some (Inr res)"
      by (subst bfs_while.simps) simp
    with less.prems Nil show ?thesis by blast
  next
    case (Cons u q')
    from less.prems have ok: "cola_ok g vis (u # q')" by (simp add: bfs_inv_def Cons)
    then have u: "0 \<le> u" "u < num_nodos g" and lvis: "length vis = nat (num_nodos g)"
      by (simp_all add: cola_ok_def)
    have at_u: "at vis u = Inr (vis ! nat u)" using u lvis by (simp add: at_def)
    show ?thesis
    proof (cases "vis ! nat u \<ge> depth")
      case True
      have "bfs_inv g vis q' res ps" using less.prems bfs_inv_pop_skip by (simp add: Cons)
      moreover have "count_list vis (- 1) + length q' < count_list vis (- 1) + length q"
        by (simp add: Cons)
      ultimately obtain vis' res' ps' where
        "bfs_while g depth vis q' res = Some (Inr res')" "bfs_inv g vis' [] res' ps'"
        using less.hyps by blast
      moreover have "bfs_while g depth vis q res = bfs_while g depth vis q' res"
        by (subst bfs_while.simps) (simp add: Cons at_u True)
      ultimately show ?thesis by auto
    next
      case False
      have "length (row_ptr g) = nat (num_nodos g + 1)" using rows by (simp add: csr_rows_def)
      then have at_lo: "at (row_ptr g) u = Inr (row_ptr g ! nat u)" using u by (simp add: at_def)
      have "bfs_for_inv g u (row_ptr g ! nat u) vis q' res ps"
        using bfs_inv_pop_expand [OF rows] less.prems by (simp add: Cons)
      from bfs_for_correct [OF inv this] obtain vis1 q1 res1 ps1 where
        f: "bfs_for g u (row_ptr g ! nat u) vis q' res = Inr (vis1, q1, res1)"
        and i1: "bfs_for_inv g u (row_ptr g ! nat (u + 1)) vis1 q1 res1 ps1"
        and c1: "count_list vis1 (- 1) + length q1 = count_list vis (- 1) + length q'"
        by blast
      have "bfs_inv g vis1 q1 res1 ps1" using i1 by (rule bfs_for_inv_final)
      moreover have "count_list vis1 (- 1) + length q1 < count_list vis (- 1) + length q"
        using c1 by (simp add: Cons)
      ultimately obtain vis' res' ps' where
        "bfs_while g depth vis1 q1 res1 = Some (Inr res')" "bfs_inv g vis' [] res' ps'"
        using less.hyps by blast
      moreover have "bfs_while g depth vis q res = bfs_while g depth vis1 q1 res1"
        by (subst bfs_while.simps) (simp add: Cons at_u False at_lo f)
      ultimately show ?thesis by auto
    qed
  qed
qed

text \<open>
  C10. On every graph that satisfies the CSR invariants, for every start node in
  \<open>[0, num_nodos)\<close> and every depth, \<^verbatim>\<open>bfs\<close> returns, and the pairs it returns were
  read at pairwise distinct positions of \<open>col_indices\<close>, each pair being the edge stored
  at its position: a position contributes at most one pair, and the sequence has at most
  \<open>num_aristas\<close> pairs.
\<close>

theorem bfs_cada_posicion_una_vez:
  assumes inv: "csr_invariants g" and s: "0 \<le> s" "s < num_nodos g"
  shows "\<exists>res ps. bfs g s d = Some (Inr (res, g)) \<and> distinct ps \<and>
      list_all2 (emite g) res ps \<and> (\<forall>p \<in> set ps. 0 \<le> p \<and> p < num_aristas g) \<and>
      int (length res) \<le> num_aristas g"
proof -
  have rows: "csr_rows g" using inv by (simp add: csr_invariants_def)
  define vis1 where "vis1 = (replicate (nat (num_nodos g)) (- 1 :: int))[nat s := 0]"
  have f: "vec_fill (num_nodos g) (- 1) = Inr (replicate (nat (num_nodos g)) (- 1))"
    using s by (simp add: vec_fill_def)
  have p: "put (replicate (nat (num_nodos g)) (- 1)) s 0 = Inr vis1"
    using s by (simp add: put_def vis1_def)
  have "cola_ok g vis1 [s]" using s by (simp add: cola_ok_def vis1_def)
  then have "bfs_inv g vis1 [s] [] []" by (simp add: bfs_inv_def)
  from bfs_while_correct [OF inv this] obtain vis' res ps where
    w: "bfs_while g d vis1 [s] [] = Some (Inr res)" and i: "bfs_inv g vis' [] res ps"
    by blast
  from i have dps: "distinct ps" and em: "list_all2 (emite g) res ps"
    and own: "\<forall>p \<in> set ps. \<exists>u. terminado g vis' [] u \<and> en_fila g u p"
    by (simp_all add: bfs_inv_def)
  have range: "0 \<le> p \<and> p < num_aristas g" if "p \<in> set ps" for p
  proof -
    from own that obtain u where "0 \<le> u" "u < num_nodos g" "en_fila g u p"
      by (auto simp: terminado_def)
    then show ?thesis using en_fila_bounds [OF rows] by blast
  qed
  then have "set ps \<subseteq> {0 ..< num_aristas g}" by auto
  then have "card (set ps) \<le> card {0 ..< num_aristas g}" by (intro card_mono) auto
  then have "length ps \<le> nat (num_aristas g)" using dps by (simp add: distinct_card)
  moreover have "length res = length ps" using em by (rule list_all2_lengthD)
  moreover have "0 \<le> num_aristas g"
    using csr_rows_bounds(2) [OF rows, of 0] rows by (simp add: csr_rows_def)
  ultimately have len: "int (length res) \<le> num_aristas g" by simp
  have "bfs g s d = Some (Inr (res, g))"
    unfolding bfs_def using s by (simp add: f p w)
  with dps em range len show ?thesis by blast
qed

theorem bfs_cada_posicion_una_vez_witness:
  "csr_invariants triangulo \<and>
   bfs triangulo 0 10 = Some (Inr ([(0, 1), (1, 2), (2, 0)], triangulo)) \<and>
   int (length [(0, 1), (1, 2), (2 :: int, 0 :: int)]) \<le> num_aristas triangulo"
proof -
  have inv: "csr_invariants triangulo" by code_simp
  have s: "(0 :: int) < num_nodos triangulo" by (simp add: triangulo_def)
  have b: "bfs triangulo 0 10 = Some (Inr ([(0, 1), (1, 2), (2, 0)], triangulo))"
    by code_simp
  from bfs_cada_posicion_una_vez [OF inv _ s, of 10] obtain res where
    "bfs triangulo 0 10 = Some (Inr (res, triangulo))"
    "int (length res) \<le> num_aristas triangulo"
    by auto
  with b have "int (length [(0, 1), (1, 2), (2 :: int, 0 :: int)]) \<le> num_aristas triangulo"
    by simp
  with inv b show ?thesis by simp
qed

subsection \<open>The queries leave the graph as it is\<close>

text \<open>
  On a graph that satisfies the CSR invariants, \<^verbatim>\<open>bfs\<close> returns for every start node
  that is not negative and every depth, and \<^verbatim>\<open>obtenerNodoCritico\<close> returns when
  \<open>row_ptr\<close> satisfies its invariants: every access of the two queries is inside its
  vector, and the object after the call is the object before it.
\<close>

lemma bfs_retorna:
  assumes inv: "csr_invariants g" and s: "0 \<le> s"
  shows "\<exists>res. bfs g s d = Some (Inr (res, g))"
proof (cases "s < num_nodos g")
  case False
  then show ?thesis by (simp add: bfs_inicio_grande)
next
  case True
  define vis1 where "vis1 = (replicate (nat (num_nodos g)) (- 1 :: int))[nat s := 0]"
  have f: "vec_fill (num_nodos g) (- 1) = Inr (replicate (nat (num_nodos g)) (- 1))"
    using s True by (simp add: vec_fill_def)
  have p: "put (replicate (nat (num_nodos g)) (- 1)) s 0 = Inr vis1"
    using s True by (simp add: put_def vis1_def)
  have "cola_ok g vis1 [s]" using s True by (simp add: cola_ok_def vis1_def)
  then have "bfs_inv g vis1 [s] [] []" by (simp add: bfs_inv_def)
  from bfs_while_correct [OF inv this] obtain res where
    "bfs_while g d vis1 [s] [] = Some (Inr res)"
    by blast
  then have "bfs g s d = Some (Inr (res, g))"
    unfolding bfs_def using True by (simp add: f p)
  then show ?thesis by blast
qed

lemma obtenerNodoCritico_retorna:
  assumes rows: "csr_rows g"
  shows "\<exists>r. obtenerNodoCritico g = Inr (r, g)"
proof -
  have "critico_inv g 0 (- 1) (- 1)" by (simp add: critico_inv_def)
  moreover have "0 \<le> num_nodos g" using rows by (simp add: csr_rows_def)
  ultimately obtain r where "nodo_critico_loop g 0 (- 1) (- 1) = Inr r"
    using nodo_critico_loop_inv [OF rows, of 0 "- 1" "- 1"] by auto
  then show ?thesis by (auto simp: obtenerNodoCritico_def)
qed

text \<open>
  C9, as the claim states it, fails. The claim is that no query modifies the graph, for
  every loaded graph and every argument. The cache file is loaded as it is: the file that
  holds 2 vertices, 1 edge, \<open>row_ptr = [0, 1, 1]\<close> and \<open>col_indices = [5]\<close> loads, and
  on that graph \<open>bfs(0, 1)\<close> goes on to \<^verbatim>\<open>vis[5]\<close> on a vector of 2 elements: the
  call reads, and can write, memory outside the scratch of the query, and does not end
  with the guarantee of the claim.
\<close>

theorem bfs_columna_fuera_de_rango:
  "cargar (fs_cache (encode32 2 @ encode32 1 @ encode_vec [0, 1, 1] @ encode_vec [5])) =
     Inr ([CacheCargada],
          \<lparr>row_ptr = [0, 1, 1], col_indices = [5], num_nodos = 2, num_aristas = 1\<rparr>) \<and>
   bfs \<lparr>row_ptr = [0, 1, 1], col_indices = [5], num_nodos = 2, num_aristas = 1\<rparr> 0 1 =
     Some (Inl OutOfBounds)"
  by code_simp

text \<open>
  C9, amended. \<^verbatim>\<open>getNumNodos\<close> and \<^verbatim>\<open>getNumAristas\<close> return the field and leave
  the object unchanged, on every object. On every graph whose \<open>row_ptr\<close> satisfies the
  invariants of the data model \<^verbatim>\<open>obtenerNodoCritico\<close> returns and leaves the object
  unchanged. On every graph that satisfies the CSR invariants, for every start node that is
  not negative and every depth, \<^verbatim>\<open>bfs\<close> returns and leaves the object unchanged.
\<close>

theorem consultas_no_modifican:
  "getNumNodos g = (num_nodos g, g) \<and> getNumAristas g = (num_aristas g, g) \<and>
   (csr_rows g \<longrightarrow> (\<exists>r. obtenerNodoCritico g = Inr (r, g))) \<and>
   (csr_invariants g \<and> 0 \<le> s \<longrightarrow> (\<exists>res. bfs g s d = Some (Inr (res, g))))"
  using obtenerNodoCritico_retorna [of g] bfs_retorna [of g s d]
  by (simp add: getNumNodos_def getNumAristas_def)

theorem consultas_no_modifican_witness:
  "csr_rows triangulo \<and> csr_invariants triangulo \<and>
   obtenerNodoCritico triangulo = Inr (0, triangulo) \<and>
   bfs triangulo 0 10 = Some (Inr ([(0, 1), (1, 2), (2, 0)], triangulo)) \<and>
   bfs triangulo 7 10 = Some (Inr ([], triangulo)) \<and>
   getNumNodos triangulo = (3, triangulo) \<and> getNumAristas triangulo = (3, triangulo)"
proof -
  have rows: "csr_rows triangulo" and inv: "csr_invariants triangulo" by code_simp+
  note t = consultas_no_modifican [of triangulo]
  from t [of 0 10] rows obtain r where r: "obtenerNodoCritico triangulo = Inr (r, triangulo)"
    by blast
  have "obtenerNodoCritico triangulo = Inr (0, triangulo)" by code_simp
  with r have c: "obtenerNodoCritico triangulo = Inr (0, triangulo)" by simp
  from t [of 0 10] inv obtain res where b: "bfs triangulo 0 10 = Some (Inr (res, triangulo))"
    by auto
  have "bfs triangulo 0 10 = Some (Inr ([(0, 1), (1, 2), (2, 0)], triangulo))" by code_simp
  with b have b1: "bfs triangulo 0 10 = Some (Inr ([(0, 1), (1, 2), (2, 0)], triangulo))"
    by simp
  from t [of 7 10] inv obtain res' where b': "bfs triangulo 7 10 = Some (Inr (res', triangulo))"
    by auto
  have "bfs triangulo 7 10 = Some (Inr ([], triangulo))" by code_simp
  with b' have b2: "bfs triangulo 7 10 = Some (Inr ([], triangulo))" by simp
  have "num_nodos triangulo = 3" "num_aristas triangulo = 3"
    by (simp_all add: triangulo_def)
  then have "getNumNodos triangulo = (3, triangulo)" "getNumAristas triangulo = (3, triangulo)"
    using t [of 0 10] by simp_all
  with rows inv c b1 b2 show ?thesis by simp
qed

end
